theory Spec2Isabelle
  imports Main
begin

section \<open>Python strings\<close>

text \<open>
  The runner of \<^verbatim>\<open>src/worker/implementation_worker.py\<close> (the text of
  \<^verbatim>\<open>_RUN_IMPL_SOURCE\<close>) works on Python 3 \<^verbatim>\<open>str\<close> values: sequences of Unicode
  code points. A string is the list of its code points; \<open>py\<close> turns an ASCII literal
  into one.
\<close>

type_synonym pystr = "nat list"

definition py :: "string \<Rightarrow> pystr" where
  "py cs = map of_char cs"

text \<open>
  \<^verbatim>\<open>str.isspace\<close> per character, which is also what \<^verbatim>\<open>\s\<close> matches in a
  \<^verbatim>\<open>str\<close> pattern (Python 3.11, Unicode 14.0).
\<close>

definition spaces :: "nat list" where
  "spaces = [9, 10, 11, 12, 13, 28, 29, 30, 31, 32, 133, 160, 5760,
     8192, 8193, 8194, 8195, 8196, 8197, 8198, 8199, 8200, 8201, 8202,
     8232, 8233, 8239, 8287, 12288]"

definition isspace :: "nat \<Rightarrow> bool" where
  "isspace c = (c \<in> set spaces)"

text \<open>
  The code points of the digit zero of every decimal-digit run of Unicode 14.0 (category
  Nd); \<^verbatim>\<open>\d\<close> in a \<^verbatim>\<open>str\<close> pattern matches the ten code points from each.
\<close>

definition nd_zero :: "nat list" where
  "nd_zero = [48, 1632, 1776, 1984, 2406, 2534, 2662, 2790, 2918, 3046, 3174, 3302,
     3430, 3558, 3664, 3792, 3872, 4160, 4240, 6112, 6160, 6470, 6608, 6784, 6800,
     6992, 7088, 7232, 7248, 42528, 43216, 43264, 43472, 43504, 43600, 44016, 65296,
     66720, 68912, 69734, 69872, 69942, 70096, 70384, 70736, 70864, 71248, 71360,
     71472, 71904, 72016, 72784, 73040, 73120, 92768, 92864, 93008,
     120782, 120792, 120802, 120812, 120822, 123200, 123632, 125264, 130032]"

definition isdecimal :: "nat \<Rightarrow> bool" where
  "isdecimal c = list_ex (\<lambda>z. z \<le> c \<and> c < z + 10) nd_zero"

text \<open>\<^verbatim>\<open>s.strip()\<close>: leading and trailing white space removed.\<close>

definition strip :: "pystr \<Rightarrow> pystr" where
  "strip s = rev (dropWhile isspace (rev (dropWhile isspace s)))"

text \<open>\<^verbatim>\<open>s.split("\n")\<close>: the pieces between line feeds; never an empty list.\<close>

fun split_nl :: "pystr \<Rightarrow> pystr list" where
  "split_nl [] = [[]]"
| "split_nl (c # cs) =
     (if c = 10 then [] # split_nl cs
      else case split_nl cs of [] \<Rightarrow> [[c]] | l # ls \<Rightarrow> (c # l) # ls)"

text \<open>\<^verbatim>\<open>"%s" % n\<close> for a non-negative integer: its decimal digits.\<close>

fun str_nat :: "nat \<Rightarrow> pystr" where
  "str_nat n = (if n < 10 then [48 + n] else str_nat (n div 10) @ [48 + n mod 10])"

declare str_nat.simps [simp del]

section \<open>Regular expressions as backtracking matchers\<close>

text \<open>
  Python's \<^verbatim>\<open>re\<close> is a backtracking matcher: of all the ways a pattern can match at
  the start of the text it reports the first one in the order in which it tries them
  (a greedy quantifier tries the longest repetition first, a lazy one the shortest, an
  optional group tries its body before skipping it). A matcher maps a state, the text
  still to be read and the groups captured so far, to the list of states it can end in,
  in that order; \<^verbatim>\<open>re.match\<close> takes the head of the list.
\<close>

type_synonym groups = "nat \<rightharpoonup> pystr"
type_synonym mstate = "pystr \<times> groups"
type_synonym matcher = "mstate \<Rightarrow> mstate list"

text \<open>The character classes of the runner's patterns.\<close>

definition dot :: "nat \<Rightarrow> bool" where
  \<comment> \<open>\<^verbatim>\<open>.\<close> without \<^verbatim>\<open>re.DOTALL\<close>: anything but a line feed\<close>
  "dot c = (c \<noteq> 10)"

definition chr :: "nat \<Rightarrow> nat \<Rightarrow> bool" where
  \<comment> \<open>a literal character\<close>
  "chr a c = (c = a)"

definition dash :: "nat \<Rightarrow> bool" where
  \<comment> \<open>the class of hyphen-minus and em dash (U+2014)\<close>
  "dash c = (c = 45 \<or> c = 8212)"

definition notslash :: "nat \<Rightarrow> bool" where
  \<comment> \<open>\<^verbatim>\<open>[^/]\<close>\<close>
  "notslash c = (c \<noteq> 47)"

definition icase :: "nat \<Rightarrow> nat \<Rightarrow> bool" where
  \<comment> \<open>an upper-case ASCII letter under \<^verbatim>\<open>re.IGNORECASE\<close>: both cases, and for
    \<^verbatim>\<open>S\<close> also the long s (U+017F), whose case folding is \<^verbatim>\<open>s\<close>\<close>
  "icase a c = (c = a \<or> c = a + 32 \<or> (a = 83 \<and> c = 383))"

text \<open>One character of a class.\<close>

definition cls :: "(nat \<Rightarrow> bool) \<Rightarrow> matcher" where
  "cls P = (\<lambda>(s, g). case s of [] \<Rightarrow> [] | c # cs \<Rightarrow> if P c then [(cs, g)] else [])"

text \<open>Concatenation: every way to continue after every way to begin.\<close>

definition seq :: "matcher \<Rightarrow> matcher \<Rightarrow> matcher" where
  "seq a b = (\<lambda>st. concat (map b (a st)))"

text \<open>
  \<open>greedy n P\<close> is a character class repeated at least \<open>n\<close> times (\<^verbatim>\<open>*\<close> is
  \<open>greedy 0\<close>, \<^verbatim>\<open>+\<close> is \<open>greedy 1\<close>), longest first; \<open>lazy n P\<close> is
  \<^verbatim>\<open>*?\<close> or \<^verbatim>\<open>+?\<close>, shortest first.
\<close>

definition lazy :: "nat \<Rightarrow> (nat \<Rightarrow> bool) \<Rightarrow> matcher" where
  "lazy n P = (\<lambda>(s, g). map (\<lambda>k. (drop k s, g)) [n ..< Suc (length (takeWhile P s))])"

definition greedy :: "nat \<Rightarrow> (nat \<Rightarrow> bool) \<Rightarrow> matcher" where
  "greedy n P = (\<lambda>(s, g). map (\<lambda>k. (drop k s, g)) (rev [n ..< Suc (length (takeWhile P s))]))"

text \<open>\<^verbatim>\<open>(?:...)?\<close>: the body first, then nothing.\<close>

definition opt :: "matcher \<Rightarrow> matcher" where
  "opt a = (\<lambda>st. a st @ [st])"

text \<open>A capturing group records the text its body consumed.\<close>

definition grp :: "nat \<Rightarrow> matcher \<Rightarrow> matcher" where
  "grp i a = (\<lambda>(s, g). map (\<lambda>(s', g'). (s', g'(i \<mapsto> take (length s - length s') s))) (a (s, g)))"

text \<open>
  \<^verbatim>\<open>$\<close> without \<^verbatim>\<open>re.MULTILINE\<close>: the end of the text, or just before a line feed
  that ends the text.
\<close>

definition eos :: matcher where
  "eos = (\<lambda>(s, g). if s = [] \<or> s = [10] then [(s, g)] else [])"

text \<open>
  \<^verbatim>\<open>re.match(pattern, text)\<close>: the groups of the first way to match at the start of
  the text, if there is one. (A leading \<^verbatim>\<open>^\<close> adds nothing to \<^verbatim>\<open>re.match\<close>.)
\<close>

definition first_result :: "'a list \<Rightarrow> 'a option" where
  "first_result xs = (case xs of [] \<Rightarrow> None | x # _ \<Rightarrow> Some x)"

definition re_match :: "matcher \<Rightarrow> pystr \<Rightarrow> groups option" where
  "re_match r text = map_option snd (first_result (r (text, Map.empty)))"

text \<open>A run of literal characters.\<close>

fun lits :: "pystr \<Rightarrow> matcher" where
  "lits [] = (\<lambda>st. [st])"
| "lits (c # cs) = seq (cls (chr c)) (lits cs)"

section \<open>Plan parsing\<close>

text \<open>
  \<^verbatim>\<open>^(\d+)\.\s*(.+?)(?:\s*[-\u2014]\s*.+)?$\<close>, the pattern of a numbered plan line
  (\<^verbatim>\<open>run_agent\<close>, line 252).
\<close>

definition plan_re :: matcher where
  "plan_re =
     seq (grp 1 (greedy 1 isdecimal))
    (seq (cls (chr 46))
    (seq (greedy 0 isspace)
    (seq (grp 2 (lazy 1 dot))
    (seq (opt (seq (greedy 0 isspace) (seq (cls dash) (seq (greedy 0 isspace) (greedy 1 dot)))))
         eos))))"

text \<open>
  \<^verbatim>\<open>lines = [l.strip() for l in text.split("\n") if l.strip()]\<close>
\<close>

definition plan_lines :: "pystr \<Rightarrow> pystr list" where
  "plan_lines text = filter (\<lambda>l. l \<noteq> []) (map strip (split_nl text))"

text \<open>
  \<^verbatim>\<open>m.group(2).strip()\<close> for a line that matches, \<open>None\<close> for a line that does not.
  Group 2 takes part in every match of the pattern (\<open>plan_re_group2\<close> below), so the
  \<^verbatim>\<open>AttributeError\<close> of \<^verbatim>\<open>None.strip()\<close> cannot occur.
\<close>

definition plan_label :: "pystr \<Rightarrow> pystr option" where
  "plan_label l =
     (case re_match plan_re l of
        None \<Rightarrow> None
      | Some g \<Rightarrow> map_option strip (g 2))"

text \<open>
  The first-message branch of \<^verbatim>\<open>run_agent\<close> (lines 250 to 257): from
  \<^verbatim>\<open>plan_steps\<close> as it is before (empty, since the branch runs once) and the stripped
  text of the block to \<^verbatim>\<open>plan_steps\<close> and \<^verbatim>\<open>total_steps[0]\<close> after.
\<close>

definition parse_plan :: "pystr list \<Rightarrow> pystr \<Rightarrow> pystr list \<times> nat" where
  "parse_plan steps0 text =
     (let lines = plan_lines text;
          steps1 = steps0 @ List.map_filter plan_label lines;
          steps2 = (if steps1 = [] then steps1 @ take 6 lines else steps1);
          n = (if length steps2 = 0 then 6 else length steps2)
      in (steps2, n))"

section \<open>Step classification\<close>

text \<open>
  \<^verbatim>\<open>^\[STEP\s+(\d+)/(\d+)\]\s*(.+)\<close> with \<^verbatim>\<open>re.IGNORECASE\<close>, the pattern of a step
  header (\<^verbatim>\<open>run_agent\<close>, line 262).
\<close>

definition step_re :: matcher where
  "step_re =
     seq (cls (chr 91))
    (seq (cls (icase 83)) (seq (cls (icase 84)) (seq (cls (icase 69)) (seq (cls (icase 80))
    (seq (greedy 1 isspace)
    (seq (grp 1 (greedy 1 isdecimal))
    (seq (cls (chr 47))
    (seq (grp 2 (greedy 1 isdecimal))
    (seq (cls (chr 93))
    (seq (greedy 0 isspace)
         (grp 3 (greedy 1 dot))))))))))))"

text \<open>\<^verbatim>\<open>step_m.group(3).strip()\<close> when the text matches.\<close>

definition step_label :: "pystr \<Rightarrow> pystr option" where
  "step_label text =
     (case re_match step_re text of
        None \<Rightarrow> None
      | Some g \<Rightarrow> map_option strip (g 3))"

text \<open>
  Lines 262 to 268 of \<^verbatim>\<open>run_agent\<close>: the summary of a message after the first, from
  its stripped text, \<^verbatim>\<open>step_index[0]\<close> and \<^verbatim>\<open>plan_steps\<close>.
\<close>

definition classify :: "pystr \<Rightarrow> nat \<Rightarrow> pystr list \<Rightarrow> pystr" where
  "classify text cursor plan =
     (case step_label text of
        Some label \<Rightarrow> label
      | None \<Rightarrow>
          if cursor < length plan then plan ! cursor
          else py ''Implementing step '' @ str_nat (cursor + 1))"

section \<open>The job, its environment and its effects\<close>

text \<open>
  JSON values as \<^verbatim>\<open>json.dumps\<close> and \<^verbatim>\<open>json.loads\<close> see them (without floats, which
  the runner never writes); an object keeps its keys in the order of the \<^verbatim>\<open>dict\<close>.
\<close>

datatype json = JNull | JBool bool | JInt int | JStr pystr | JList "json list"
  | JObj "(pystr \<times> json) list"

fun field :: "pystr \<Rightarrow> json \<Rightarrow> json option" where
  "field k (JObj kvs) = map_of kvs k"
| "field k _ = None"

text \<open>
  The local variables that \<^verbatim>\<open>main\<close> reads from the process environment (lines 57 to 68
  and 281). \<^verbatim>\<open>_env(...) or None\<close> is an optional string.
\<close>

record job =
  job_id :: pystr
  idea :: pystr
  callback_base_url :: pystr
  repo_url :: "pystr option"
  github_token :: "pystr option"
  branch :: pystr
  risk :: int
  temperature :: int
  vercel_token :: "pystr option"
  git_user_name :: pystr
  git_user_email :: pystr
  openrouter_key :: pystr

text \<open>Python's truth value of an optional string: neither \<^verbatim>\<open>None\<close> nor empty.\<close>

fun truthy :: "pystr option \<Rightarrow> bool" where
  "truthy None = False"
| "truthy (Some s) = (s \<noteq> [])"

text \<open>
  What the runner does to the outside world, in order: a line printed by \<^verbatim>\<open>_log\<close>
  (or the equivalent \<^verbatim>\<open>print\<close>), a POST of a JSON body to the callback base URL plus a
  path, a \<^verbatim>\<open>git\<close> command run with \<^verbatim>\<open>subprocess.run\<close>, a POST to the deployment API
  (bearer token and body), a request for a pitch (idea and plan summary).
\<close>

datatype effect =
    Log pystr
  | Post pystr json
  | Git "pystr list"
  | Deploy pystr json
  | Pitch pystr pystr

text \<open>
  How a \<^verbatim>\<open>subprocess.run(..., check=True)\<close> ends: exit status 0; a
  \<^verbatim>\<open>CalledProcessError\<close> (its text and its decoded standard error); or any other
  exception (\<^verbatim>\<open>TimeoutExpired\<close> of the push, \<^verbatim>\<open>OSError\<close>), which the runner does not
  catch.
\<close>

datatype proc = Exit0 | NonZero pystr pystr | Escaped

text \<open>
  The deployment API's answer as \<^verbatim>\<open>trigger_vercel_deploy\<close> sees it: an exception raised
  by \<^verbatim>\<open>urlopen\<close>, \<^verbatim>\<open>json.loads\<close> or \<^verbatim>\<open>data.get\<close> (its text), or the value of
  \<^verbatim>\<open>data.get("url", "")\<close>. The pitch service's answer: an exception, or the content
  string.
\<close>

datatype vercel_reply = VRaise pystr | VUrl json
datatype pitch_reply = PRaise pystr | PContent pystr

text \<open>
  The outside world: each answer is a function of everything the runner has done so
  far, the request included. \<open>callback\<close> gives the text of the exception a callback POST
  raises, if it raises.
\<close>

record world =
  callback :: "effect list \<Rightarrow> pystr option"
  git :: "effect list \<Rightarrow> proc"
  vercel :: "effect list \<Rightarrow> vercel_reply"
  openrouter :: "effect list \<Rightarrow> pitch_reply"

text \<open>
  The mutable state of \<^verbatim>\<open>main\<close>: \<^verbatim>\<open>push_url\<close>, \<^verbatim>\<open>plan_steps\<close> and the cells
  \<^verbatim>\<open>total_steps[0]\<close>, \<^verbatim>\<open>step_index[0]\<close>, \<^verbatim>\<open>started_sent[0]\<close>, with the effects so far.
\<close>

record st =
  push_url :: "pystr option"
  plan_steps :: "pystr list"
  total_steps :: nat
  step_index :: nat
  started_sent :: bool
  trace :: "effect list"

text \<open>A call returns, or an exception leaves it; either way with the state reached.\<close>

datatype result = Return st | Raise st

fun state_of :: "result \<Rightarrow> st" where
  "state_of (Return s) = s"
| "state_of (Raise s) = s"

section \<open>Notifier\<close>

definition startswith :: "pystr \<Rightarrow> pystr \<Rightarrow> bool" where
  "startswith s p = (take (length p) s = p)"

text \<open>\<^verbatim>\<open>s.rstrip(ch)\<close> for a single character.\<close>

definition rstrip_chr :: "nat \<Rightarrow> pystr \<Rightarrow> pystr" where
  "rstrip_chr a s = rev (dropWhile (\<lambda>c. c = a) (rev s))"

text \<open>\<^verbatim>\<open>base\<close> (lines 104 to 106): empty unless an http or https URL.\<close>

definition callback_base :: "job \<Rightarrow> pystr" where
  "callback_base c =
     (let base = (if callback_base_url c \<noteq> [] then rstrip_chr 47 (callback_base_url c) else [])
      in if base = [] \<or> \<not> (startswith base (py ''http://'') \<or> startswith base (py ''https://''))
         then [] else base)"

definition log_msg :: "pystr \<Rightarrow> st \<Rightarrow> st" where
  "log_msg msg s = s\<lparr>trace := trace s @ [Log msg]\<rparr>"

text \<open>\<^verbatim>\<open>_post(path, body)\<close>: nothing without a base; an exception is logged.\<close>

definition post :: "job \<Rightarrow> world \<Rightarrow> pystr \<Rightarrow> json \<Rightarrow> st \<Rightarrow> st" where
  "post c w path body s =
     (if callback_base c = [] then s
      else let tr = trace s @ [Post path body]
           in case callback w tr of
                None \<Rightarrow> s\<lparr>trace := tr\<rparr>
              | Some e \<Rightarrow> s\<lparr>trace := tr @ [Log (py ''callback '' @ path @ py '' error: '' @ e)]\<rparr>)"

section \<open>Git setup and publishing\<close>

text \<open>\<^verbatim>\<open>s.replace(old, new)\<close>: every occurrence, left to right.\<close>

function replace :: "pystr \<Rightarrow> pystr \<Rightarrow> pystr \<Rightarrow> pystr" where
  "replace old new s =
     (if s = [] then (if old = [] then new else [])
      else if old = [] then new @ hd s # replace old new (tl s)
      else if startswith s old then new @ replace old new (drop (length old) s)
      else hd s # replace old new (tl s))"
  by pat_completeness auto
termination
  by (relation "measure (\<lambda>(old, new, s). length s)") auto

declare replace.simps [simp del]

text \<open>
  Commands run one after the other until one does not exit with status 0; the state
  records each command that was started.
\<close>

fun run_git :: "world \<Rightarrow> pystr list list \<Rightarrow> st \<Rightarrow> proc \<times> st" where
  "run_git w [] s = (Exit0, s)"
| "run_git w (cmd # cmds) s =
     (let tr = trace s @ [Git cmd]
      in case git w tr of
           Exit0 \<Rightarrow> run_git w cmds (s\<lparr>trace := tr\<rparr>)
         | NonZero e err \<Rightarrow> (NonZero e err, s\<lparr>trace := tr\<rparr>)
         | Escaped \<Rightarrow> (Escaped, s\<lparr>trace := tr\<rparr>))"

definition init_cmds :: "job \<Rightarrow> pystr \<Rightarrow> pystr list list" where
  "init_cmds c url =
     [[py ''git'', py ''init''],
      [py ''git'', py ''config'', py ''user.email'', git_user_email c],
      [py ''git'', py ''config'', py ''user.name'', git_user_name c],
      [py ''git'', py ''branch'', py ''-M'', branch c],
      [py ''git'', py ''remote'', py ''add'', py ''origin'', url]]"

text \<open>The push URL of line 123: the token put into every \<^verbatim>\<open>https://\<close> of the URL.\<close>

definition auth_url :: "pystr \<Rightarrow> pystr \<Rightarrow> pystr" where
  "auth_url url token =
     replace (py ''https://'') (py ''https://x-access-token:'' @ token @ py ''@'') url"

text \<open>Lines 121 to 134 of \<^verbatim>\<open>main\<close>.\<close>

definition git_setup :: "job \<Rightarrow> world \<Rightarrow> st \<Rightarrow> result" where
  "git_setup c w s =
     (case (repo_url c, github_token c) of
        (Some url, Some token) \<Rightarrow>
          if url = [] \<or> token = [] then Return s
          else
            let push = auth_url url token
            in (case run_git w (init_cmds c push) (s\<lparr>push_url := Some push\<rparr>) of
                  (Exit0, s1) \<Rightarrow> Return s1
                | (NonZero e err, s1) \<Rightarrow>
                    Return (post c w (py ''/v1.0/log/error'')
                      (JObj [(py ''jobId'', JStr (job_id c)),
                             (py ''error'', JStr (py ''git init failed: '' @ e)),
                             (py ''stderr'', JStr (strip err)),
                             (py ''phase'', JStr (py ''git_init''))])
                      (log_msg (py ''git init failed: '' @ e @ py '' stderr='' @ strip err)
                        (s1\<lparr>push_url := None\<rparr>)))
                | (Escaped, s1) \<Rightarrow> Raise s1)
      | _ \<Rightarrow> Return s)"

text \<open>
  \<^verbatim>\<open>https://github\.com/([^/]+)/([^/]+?)(?:\.git)?$\<close>, the pattern of a repository URL
  (\<^verbatim>\<open>trigger_vercel_deploy\<close>, line 143).
\<close>

definition repo_re :: matcher where
  "repo_re =
     seq (lits (py ''https://github.com/''))
    (seq (grp 1 (greedy 1 notslash))
    (seq (cls (chr 47))
    (seq (grp 2 (lazy 1 notslash))
    (seq (opt (lits (py ''.git'')))
         eos))))"

text \<open>
  \<^verbatim>\<open>(m.group(1), m.group(2))\<close> when the URL matches; both groups take part in every
  match (\<open>repo_re_groups\<close> below).
\<close>

definition repo_parts :: "pystr \<Rightarrow> (pystr \<times> pystr) option" where
  "repo_parts url =
     (case re_match repo_re url of
        None \<Rightarrow> None
      | Some g \<Rightarrow> (case (g 1, g 2) of (Some org, Some name) \<Rightarrow> Some (org, name) | _ \<Rightarrow> None))"

text \<open>Python's truth value, type name and \<^verbatim>\<open>"%s"\<close> text of a JSON value that is false.\<close>

fun json_truthy :: "json \<Rightarrow> bool" where
  "json_truthy JNull = False"
| "json_truthy (JBool b) = b"
| "json_truthy (JInt i) = (i \<noteq> 0)"
| "json_truthy (JStr s) = (s \<noteq> [])"
| "json_truthy (JList xs) = (xs \<noteq> [])"
| "json_truthy (JObj kvs) = (kvs \<noteq> [])"

fun type_name :: "json \<Rightarrow> pystr" where
  "type_name JNull = py ''NoneType''"
| "type_name (JBool b) = py ''bool''"
| "type_name (JInt i) = py ''int''"
| "type_name (JStr s) = py ''str''"
| "type_name (JList xs) = py ''list''"
| "type_name (JObj kvs) = py ''dict''"

fun str_falsy :: "json \<Rightarrow> pystr" where
  "str_falsy JNull = py ''None''"
| "str_falsy (JBool b) = py ''False''"
| "str_falsy (JInt i) = py ''0''"
| "str_falsy (JStr s) = s"
| "str_falsy (JList xs) = py ''[]''"
| "str_falsy (JObj kvs) = py ''{}''"

text \<open>
  Lines 169 to 176: what \<^verbatim>\<open>trigger_vercel_deploy\<close> does with the \<^verbatim>\<open>url\<close> of the
  answer. A value that is true but not a string has no \<^verbatim>\<open>startswith\<close>: the
  \<^verbatim>\<open>AttributeError\<close> is caught and logged.
\<close>

definition deployed :: "job \<Rightarrow> world \<Rightarrow> json \<Rightarrow> st \<Rightarrow> st" where
  "deployed c w v s =
     (if json_truthy v then
        (case v of
           JStr u \<Rightarrow>
             let url = (if startswith u (py ''http'') then u else py ''https://'' @ u)
             in post c w (py ''/v1.0/log/deployment'')
                  (JObj [(py ''jobId'', JStr (job_id c)), (py ''url'', JStr url)])
                  (log_msg (py ''Vercel deployment triggered: '' @ url) s)
         | _ \<Rightarrow>
             log_msg (py ''Vercel deploy trigger failed: '' @ [39] @ type_name v @ [39]
               @ py '' object has no attribute '' @ [39] @ py ''startswith'' @ [39]) s)
      else
        post c w (py ''/v1.0/log/deployment'')
          (JObj [(py ''jobId'', JStr (job_id c)), (py ''url'', v)])
          (log_msg (py ''Vercel deployment triggered: '' @ str_falsy v) s))"

text \<open>\<^verbatim>\<open>trigger_vercel_deploy\<close> (lines 140 to 176).\<close>

definition trigger_vercel_deploy :: "job \<Rightarrow> world \<Rightarrow> st \<Rightarrow> st" where
  "trigger_vercel_deploy c w s =
     (case (vercel_token c, repo_url c) of
        (Some token, Some url) \<Rightarrow>
          if token = [] \<or> url = [] then s
          else
            (case repo_parts url of
               None \<Rightarrow> log_msg (py ''cannot parse repo_url for Vercel: '' @ url) s
             | Some (org, repo_name) \<Rightarrow>
                 let payload = JObj
                       [(py ''name'', JStr repo_name),
                        (py ''target'', JStr (py ''production'')),
                        (py ''gitSource'', JObj
                           [(py ''type'', JStr (py ''github'')),
                            (py ''org'', JStr org),
                            (py ''repo'', JStr repo_name),
                            (py ''ref'', JStr (branch c))])];
                     tr = trace s @ [Deploy token payload]
                 in (case vercel w tr of
                       VRaise e \<Rightarrow> log_msg (py ''Vercel deploy trigger failed: '' @ e) (s\<lparr>trace := tr\<rparr>)
                     | VUrl v \<Rightarrow> deployed c w v (s\<lparr>trace := tr\<rparr>)))
      | _ \<Rightarrow> s)"

definition publish_cmds :: "job \<Rightarrow> nat \<Rightarrow> pystr \<Rightarrow> pystr list list" where
  "publish_cmds c idx summary =
     [[py ''git'', py ''add'', py ''-A''],
      [py ''git'', py ''commit'', py ''-m'',
       py ''Step '' @ str_nat idx @ py '': '' @ take 72 summary, py ''--allow-empty''],
      [py ''git'', py ''push'', py ''--force'', py ''-u'', py ''origin'', branch c]]"

text \<open>The body of a push event (line 187).\<close>

definition push_body :: "job \<Rightarrow> nat \<Rightarrow> pystr \<Rightarrow> json" where
  "push_body c idx summary =
     JObj [(py ''jobId'', JStr (job_id c)),
           (py ''stepIndex'', JInt (int idx)),
           (py ''branch'', JStr (branch c)),
           (py ''summary'', JStr summary)]"

text \<open>\<^verbatim>\<open>commit_and_push(step_index, summary)\<close> (lines 179 to 192).\<close>

definition commit_and_push :: "job \<Rightarrow> world \<Rightarrow> nat \<Rightarrow> pystr \<Rightarrow> st \<Rightarrow> result" where
  "commit_and_push c w idx summary s =
     (if \<not> truthy (push_url s) then Return s
      else
        (case run_git w (publish_cmds c idx summary) s of
           (Exit0, s1) \<Rightarrow>
             Return (trigger_vercel_deploy c w
               (post c w (py ''/v1.0/log/push'') (push_body c idx summary)
                  (log_msg (py ''pushed step '' @ str_nat idx) s1)))
         | (NonZero e err, s1) \<Rightarrow>
             Return (post c w (py ''/v1.0/log/error'')
               (JObj [(py ''jobId'', JStr (job_id c)),
                      (py ''error'', JStr (py ''git push failed at step '' @ str_nat idx @ py '': '' @ e)),
                      (py ''stderr'', JStr (strip err)),
                      (py ''phase'', JStr (py ''git_push''))])
               (log_msg (py ''git push step '' @ str_nat idx @ py '' failed: '' @ e
                  @ py '' stderr='' @ strip err) s1))
         | (Escaped, s1) \<Rightarrow> Raise s1))"

section \<open>Job driver\<close>

text \<open>The bodies of a step event (line 237) and of the start event (line 258).\<close>

definition step_body :: "job \<Rightarrow> nat \<Rightarrow> nat \<Rightarrow> bool \<Rightarrow> pystr \<Rightarrow> json" where
  "step_body c idx n done summary =
     JObj [(py ''jobId'', JStr (job_id c)),
           (py ''stepIndex'', JInt (int idx)),
           (py ''totalSteps'', JInt (int n)),
           (py ''done'', JBool done),
           (py ''summary'', JStr summary)]"

definition start_body :: "job \<Rightarrow> nat \<Rightarrow> pystr list \<Rightarrow> json" where
  "start_body c n steps =
     JObj [(py ''jobId'', JStr (job_id c)),
           (py ''idea'', JStr (idea c)),
           (py ''temperature'', JInt (temperature c)),
           (py ''risk'', JInt (risk c)),
           (py ''branch'', JStr (branch c)),
           (py ''totalSteps'', JInt (int n)),
           (py ''planSteps'', JList (map JStr steps))]"

text \<open>\<^verbatim>\<open>send_step(summary, done)\<close> (lines 235 to 238).\<close>

definition send_step :: "job \<Rightarrow> world \<Rightarrow> pystr \<Rightarrow> bool \<Rightarrow> st \<Rightarrow> result" where
  "send_step c w summary done s =
     (let idx = step_index s
      in commit_and_push c w idx summary
           (post c w (py ''/v1.0/log/step'') (step_body c idx (total_steps s) done summary) s))"

text \<open>
  The body of the inner loop of \<^verbatim>\<open>run_agent\<close> for one \<^verbatim>\<open>TextBlock\<close> with text
  \<open>raw\<close> (lines 244 to 271).
\<close>

definition handle_text :: "job \<Rightarrow> world \<Rightarrow> pystr \<Rightarrow> st \<Rightarrow> result" where
  "handle_text c w raw s =
     (if strip raw = [] then Return s
      else
        let text = strip raw
        in if \<not> started_sent s then
             (case parse_plan (plan_steps s) text of
                (steps, n) \<Rightarrow>
                  Return (post c w (py ''/v1.0/log/start'') (start_body c n steps)
                    (s\<lparr>started_sent := True, plan_steps := steps, total_steps := n\<rparr>)))
           else
             (case send_step c w (classify text (step_index s) (plan_steps s)) False s of
                Return s1 \<Rightarrow> Return (s1\<lparr>step_index := step_index s1 + 1\<rparr>)
              | Raise s1 \<Rightarrow> Raise s1))"

text \<open>
  The agent's stream: messages, of which the runner looks at \<^verbatim>\<open>AssistantMessage\<close> (a
  list of content blocks, of which it looks at \<^verbatim>\<open>TextBlock\<close>) and \<^verbatim>\<open>ResultMessage\<close>.
\<close>

datatype block = TextBlock pystr | OtherBlock
datatype message = AssistantMessage "block list" | ResultMessage | OtherMessage

fun run_blocks :: "job \<Rightarrow> world \<Rightarrow> block list \<Rightarrow> st \<Rightarrow> result" where
  "run_blocks c w [] s = Return s"
| "run_blocks c w (TextBlock raw # bs) s =
     (case handle_text c w raw s of
        Return s1 \<Rightarrow> run_blocks c w bs s1
      | Raise s1 \<Rightarrow> Raise s1)"
| "run_blocks c w (OtherBlock # bs) s = run_blocks c w bs s"

text \<open>\<^verbatim>\<open>run_agent\<close> (lines 240 to 274) over the messages the stream yields.\<close>

fun run_agent :: "job \<Rightarrow> world \<Rightarrow> message list \<Rightarrow> st \<Rightarrow> result" where
  "run_agent c w [] s = Return s"
| "run_agent c w (AssistantMessage bs # ms) s =
     (case run_blocks c w bs s of
        Return s1 \<Rightarrow> run_agent c w ms s1
      | Raise s1 \<Rightarrow> Raise s1)"
| "run_agent c w (ResultMessage # ms) s =
     (case send_step c w (py ''Build complete'') True s of
        Return s1 \<Rightarrow> run_agent c w ms s1
      | Raise s1 \<Rightarrow> Raise s1)"
| "run_agent c w (OtherMessage # ms) s = run_agent c w ms s"

text \<open>\<^verbatim>\<open>sep.join(xs)\<close>\<close>

fun join :: "pystr \<Rightarrow> pystr list \<Rightarrow> pystr" where
  "join sep [] = []"
| "join sep [x] = x"
| "join sep (x # y # ys) = x @ sep @ join sep (y # ys)"

text \<open>Lines 280 to 308: the pitch, from the pitch service or the fixed sentence.\<close>

definition make_pitch :: "job \<Rightarrow> world \<Rightarrow> st \<Rightarrow> pystr \<times> st" where
  "make_pitch c w s =
     (let plan_summary =
            (if plan_steps s \<noteq> [] then join [10] (map (\<lambda>p. py ''- '' @ p) (plan_steps s))
             else py ''- Full-stack Next.js application'');
          (pitch, s1) =
            (if openrouter_key c \<noteq> [] then
               (let tr = trace s @ [Pitch (idea c) plan_summary]
                in case openrouter w tr of
                     PContent t \<Rightarrow>
                       (strip t,
                        log_msg (py ''AI pitch generated ('' @ str_nat (length (strip t)) @ py '' chars)'')
                          (s\<lparr>trace := tr\<rparr>))
                   | PRaise e \<Rightarrow>
                       ([], log_msg (py ''AI pitch generation failed: '' @ e) (s\<lparr>trace := tr\<rparr>)))
             else ([], s))
      in (if pitch = [] then
            py ''We built a production-ready app that '' @ rstrip_chr 46 (take 200 (idea c))
              @ [32, 8212, 32] @ py ''deployed live and ready to demo.''
          else pitch, s1))"

text \<open>The body of the terminal event (line 310).\<close>

definition done_body :: "job \<Rightarrow> pystr \<Rightarrow> json" where
  "done_body c pitch =
     JObj [(py ''jobId'', JStr (job_id c)),
           (py ''repoUrl'', JStr (case repo_url c of Some url \<Rightarrow> url | None \<Rightarrow> [])),
           (py ''idea'', JStr (idea c)),
           (py ''pitch'', JStr pitch),
           (py ''success'', JBool (truthy (repo_url c) \<or> \<not> truthy (github_token c))),
           (py ''error'', JNull),
           (py ''branch'', JStr (branch c))]"

definition init_st :: st where
  "init_st = \<lparr>push_url = None, plan_steps = [], total_steps = 0, step_index = 0,
     started_sent = False, trace = []\<rparr>"

text \<open>
  \<^verbatim>\<open>main\<close> from the git setup on (line 120 to the end); the working directory, its
  \<^verbatim>\<open>.gitignore\<close> and the template files are left out.
\<close>

definition main :: "job \<Rightarrow> world \<Rightarrow> message list \<Rightarrow> result" where
  "main c w msgs =
     (case git_setup c w init_st of
        Raise s \<Rightarrow> Raise s
      | Return s1 \<Rightarrow>
          (case run_agent c w msgs
                  (log_msg (py ''started job_id='' @ job_id c @ py '' branch='' @ branch c) s1) of
             Raise s \<Rightarrow> Raise s
           | Return s2 \<Rightarrow>
               (case make_pitch c w (log_msg (py ''agent run finished'') s2) of
                  (pitch, s3) \<Rightarrow>
                    Return (log_msg (py ''finished'')
                      (post c w (py ''/v1.0/log/done'') (done_body c pitch) s3)))))"

section \<open>Observations on a run\<close>

text \<open>The bodies posted to a path, the git commands and the deployment requests of a trace.\<close>

fun posted :: "pystr \<Rightarrow> effect list \<Rightarrow> json list" where
  "posted path [] = []"
| "posted path (Post p b # es) = (if p = path then b # posted path es else posted path es)"
| "posted path (e # es) = posted path es"

fun git_cmds :: "effect list \<Rightarrow> pystr list list" where
  "git_cmds [] = []"
| "git_cmds (Git cmd # es) = cmd # git_cmds es"
| "git_cmds (e # es) = git_cmds es"

fun deploys :: "effect list \<Rightarrow> json list" where
  "deploys [] = []"
| "deploys (Deploy token body # es) = body # deploys es"
| "deploys (e # es) = deploys es"

text \<open>
  Git initialisation failed: a remote and a credential are configured and one of the
  setup commands ended with a \<^verbatim>\<open>CalledProcessError\<close>.
\<close>

definition git_init_failed :: "job \<Rightarrow> world \<Rightarrow> st \<Rightarrow> bool" where
  "git_init_failed c w s =
     (case (repo_url c, github_token c) of
        (Some url, Some token) \<Rightarrow>
          url \<noteq> [] \<and> token \<noteq> [] \<and>
          (case fst (run_git w (init_cmds c (auth_url url token)) (s\<lparr>push_url := Some (auth_url url token)\<rparr>)) of
             NonZero e err \<Rightarrow> True
           | _ \<Rightarrow> False)
      | _ \<Rightarrow> False)"

text \<open>The kinds of effect, to say what a call can add to the trace.\<close>

fun is_git :: "effect \<Rightarrow> bool" where
  "is_git (Git cmd) = True"
| "is_git e = False"

fun is_deploy :: "effect \<Rightarrow> bool" where
  "is_deploy (Deploy token body) = True"
| "is_deploy e = False"

fun is_post_to :: "pystr \<Rightarrow> effect \<Rightarrow> bool" where
  "is_post_to path (Post p b) = (p = path)"
| "is_post_to path e = False"

text \<open>\<open>adds Q s s'\<close>: the trace of \<open>s'\<close> is that of \<open>s\<close> and then effects that satisfy \<open>Q\<close>.\<close>

definition adds :: "(effect \<Rightarrow> bool) \<Rightarrow> st \<Rightarrow> st \<Rightarrow> bool" where
  "adds Q s s' = (\<exists>es. trace s' = trace s @ es \<and> list_all Q es)"

text \<open>The text blocks of a stream that are not blank, in order.\<close>

fun texts_of :: "block list \<Rightarrow> pystr list" where
  "texts_of [] = []"
| "texts_of (TextBlock raw # bs) = (if strip raw = [] then texts_of bs else strip raw # texts_of bs)"
| "texts_of (OtherBlock # bs) = texts_of bs"

fun stream_texts :: "message list \<Rightarrow> pystr list" where
  "stream_texts [] = []"
| "stream_texts (AssistantMessage bs # ms) = texts_of bs @ stream_texts ms"
| "stream_texts (m # ms) = stream_texts ms"

section \<open>A small job and two worlds, for concrete runs\<close>

definition job0 :: job where
  "job0 = \<lparr>job_id = py ''j1'', idea = py ''todo list app'', callback_base_url = py ''http://cb/'',
     repo_url = None, github_token = None, branch = py ''main'', risk = 50, temperature = 50,
     vercel_token = None, git_user_name = py ''Treemux'', git_user_email = py ''t@t.dev'',
     openrouter_key = []\<rparr>"

definition job1 :: job where
  "job1 = job0\<lparr>repo_url := Some (py ''https://github.com/o/r''), github_token := Some (py ''tok'')\<rparr>"

text \<open>Everything succeeds; every git command fails.\<close>

definition calm :: world where
  "calm = \<lparr>callback = (\<lambda>tr. None), git = (\<lambda>tr. Exit0),
     vercel = (\<lambda>tr. VUrl (JStr (py ''d.app''))), openrouter = (\<lambda>tr. PRaise [])\<rparr>"

definition stormy :: world where
  "stormy = calm\<lparr>git := (\<lambda>tr. NonZero (py ''exit 1'') (py ''fatal''))\<rparr>"

section \<open>The plan pattern as a scan\<close>

text \<open>
  What \<open>plan_label\<close> returns on a trimmed line, written as one scan from the left
  (lemma \<open>plan_label_eq\<close> below): digits, a period, white space, and then the text up to
  the first hyphen or em dash that is not its first character and has something after
  it, trimmed. This is the pattern's reading of a line, a tool for the proofs; the
  claims are stated on \<open>plan_label\<close> and \<open>parse_plan\<close>.
\<close>

fun before_dash :: "pystr \<Rightarrow> pystr" where
  "before_dash [] = []"
| "before_dash (c # cs) = (if dash c \<and> cs \<noteq> [] then [] else c # before_dash cs)"

definition numbered_item :: "pystr \<Rightarrow> pystr option" where
  "numbered_item l =
     (if takeWhile isdecimal l = [] then None
      else case dropWhile isdecimal l of
        [] \<Rightarrow> None
      | c # r \<Rightarrow>
          if c \<noteq> 46 then None
          else case dropWhile isspace r of
            [] \<Rightarrow> None
          | x # xs \<Rightarrow> Some (strip (x # before_dash xs)))"

section \<open>Auxiliary notions for the proofs\<close>

text \<open>A matcher that leaves the groups alone; a matcher that sets group \<open>i\<close>.\<close>

definition keeps :: "matcher \<Rightarrow> bool" where
  "keeps a = (\<forall>s g s' g'. (s', g') \<in> set (a (s, g)) \<longrightarrow> g' = g)"

definition sets :: "nat \<Rightarrow> matcher \<Rightarrow> bool" where
  "sets i a = (\<forall>s g s' g'. (s', g') \<in> set (a (s, g)) \<longrightarrow> g' i \<noteq> None)"

text \<open>The ways to split a text after a given prefix, shortest prefix first.\<close>

fun splits :: "pystr \<Rightarrow> pystr \<Rightarrow> (pystr \<times> pystr) list" where
  "splits pre [] = [(pre, [])]"
| "splits pre (c # cs) = (pre, c # cs) # splits (pre @ [c]) cs"

text \<open>The shortest prefix whose remainder is accepted; all of the text if none is.\<close>

fun lazy_cut :: "(pystr \<Rightarrow> bool) \<Rightarrow> pystr \<Rightarrow> pystr" where
  "lazy_cut ok [] = []"
| "lazy_cut ok (c # cs) = (if ok (c # cs) then [] else c # lazy_cut ok cs)"

text \<open>A remainder that the tail of the plan pattern accepts.\<close>

definition is_sep :: "pystr \<Rightarrow> bool" where
  "is_sep t = (case dropWhile isspace t of [] \<Rightarrow> False | h # r \<Rightarrow> dash h \<and> r \<noteq> [])"

definition sep_or_end :: "pystr \<Rightarrow> bool" where
  "sep_or_end t = (t = [] \<or> is_sep t)"

definition driver_effect :: "(effect \<Rightarrow> bool) \<Rightarrow> bool" where
  "driver_effect Q = ((\<forall>m. Q (Log m)) \<and> (\<forall>cmd. Q (Git cmd)) \<and> (\<forall>t b. Q (Deploy t b)) \<and>
     (\<forall>b. Q (Post (py ''/v1.0/log/deployment'') b)) \<and>
     (\<forall>b. Q (Post (py ''/v1.0/log/push'') b)) \<and>
     (\<forall>b. Q (Post (py ''/v1.0/log/error'') b)) \<and>
     (\<forall>b. Q (Post (py ''/v1.0/log/step'') b)) \<and>
     (\<forall>b. Q (Post (py ''/v1.0/log/start'') b)))"

definition step_marks :: "effect list \<Rightarrow> (json option \<times> json option) list" where
  "step_marks tr = map (\<lambda>b. (field (py ''stepIndex'') b, field (py ''done'') b))
     (posted (py ''/v1.0/log/step'') tr)"

definition ordinary :: "nat \<Rightarrow> json option \<times> json option" where
  "ordinary i = (Some (JInt (int i)), Some (JBool False))"

definition steps_in :: "bool \<Rightarrow> pystr list \<Rightarrow> nat" where
  "steps_in started texts = (if started then length texts else length texts - 1)"

definition cursor_ok :: "st \<Rightarrow> bool" where
  "cursor_ok s = (step_marks (trace s) = map ordinary [0 ..< step_index s])"

definition three_steps :: "message list" where
  "three_steps =
     [AssistantMessage [TextBlock (py ''1. Scaffold'' @ [10] @ py ''2. Add API'' @ [10] @ py ''3. Build UI'')],
      AssistantMessage [OtherBlock, TextBlock (py ''[STEP 1/3] Scaffold'')],
      AssistantMessage [TextBlock (py ''  ''), TextBlock (py ''working'')],
      OtherMessage,
      AssistantMessage [TextBlock (py ''[STEP 99/99] Weird'')]]"



section \<open>Facts about the matchers\<close>

lemma re_match_first: "re_match r t = map_option snd (first_result (r (t, Map.empty)))"
  by (simp add: re_match_def)

lemma first_result_concat_hit:
  "f x \<noteq> [] \<Longrightarrow> first_result (concat (map f (x # xs))) = first_result (f x)"
  by (cases "f x") (auto simp: first_result_def)

lemma first_result_concat_skip:
  "f x = [] \<Longrightarrow> first_result (concat (map f (x # xs))) = first_result (concat (map f xs))"
  by simp

lemma concat_rev_upt_last:
  assumes "\<And>k. n \<le> k \<Longrightarrow> k < d \<Longrightarrow> F k = []"
  shows "concat (map F (rev [n ..< Suc d])) = (if n \<le> d then F d else [])"
proof (cases "n \<le> d")
  case True
  then have "[n ..< Suc d] = [n ..< d] @ [d]" by simp
  moreover have "concat (map F (rev [n ..< d])) = []" using assms by auto
  ultimately show ?thesis using True by simp
next
  case False
  then show ?thesis by simp
qed

lemma takeWhile_nth_holds: "k < length (takeWhile P s) \<Longrightarrow> P (s ! k)"
  by (metis nth_mem set_takeWhileD takeWhile_nth)

lemma drop_in_takeWhile:
  "k < length (takeWhile P s) \<Longrightarrow> \<exists>c cs. drop k s = c # cs \<and> P c"
proof -
  assume a: "k < length (takeWhile P s)"
  have "length (takeWhile P s) \<le> length s" by (rule length_takeWhile_le)
  with a have "k < length s" by simp
  then have "drop k s = s ! k # drop (Suc k) s" by (simp add: Cons_nth_drop_Suc)
  with a show ?thesis by (auto intro: takeWhile_nth_holds)
qed

lemma seq_greedy_commit:
  assumes "\<And>c cs. P c \<Longrightarrow> X (c # cs, g) = []"
  shows "seq (greedy n P) X (s, g) =
    (if n \<le> length (takeWhile P s) then X (dropWhile P s, g) else [])"
proof -
  have "\<And>k. k < length (takeWhile P s) \<Longrightarrow> X (drop k s, g) = []"
    using assms drop_in_takeWhile by metis
  then have c: "concat (map (\<lambda>k. X (drop k s, g)) (rev [n ..< Suc (length (takeWhile P s))])) =
    (if n \<le> length (takeWhile P s) then X (drop (length (takeWhile P s)) s, g) else [])"
    by (rule concat_rev_upt_last)
  have "seq (greedy n P) X (s, g) =
    concat (map (\<lambda>k. X (drop k s, g)) (rev [n ..< Suc (length (takeWhile P s))]))"
    by (simp add: seq_def greedy_def comp_def del: upt_Suc)
  also note c
  also have "drop (length (takeWhile P s)) s = dropWhile P s"
    by (rule dropWhile_eq_drop [symmetric])
  finally show ?thesis .
qed

lemma grp_greedy:
  "grp i (greedy n P) (s, g) =
     map (\<lambda>k. (drop k s, g(i \<mapsto> take k s))) (rev [n ..< Suc (length (takeWhile P s))])"
proof -
  have "length (takeWhile P s) \<le> length s" by (rule length_takeWhile_le)
  then show ?thesis by (auto simp: grp_def greedy_def)
qed

lemma grp_lazy:
  "grp i (lazy n P) (s, g) =
     map (\<lambda>k. (drop k s, g(i \<mapsto> take k s))) [n ..< Suc (length (takeWhile P s))]"
proof -
  have "length (takeWhile P s) \<le> length s" by (rule length_takeWhile_le)
  then show ?thesis by (auto simp: grp_def lazy_def)
qed

lemma seq_grp_greedy_commit:
  assumes "\<And>c cs g'. P c \<Longrightarrow> X (c # cs, g') = []"
  shows "seq (grp i (greedy n P)) X (s, g) =
    (if n \<le> length (takeWhile P s) then X (dropWhile P s, g(i \<mapsto> takeWhile P s)) else [])"
proof -
  let ?d = "length (takeWhile P s)"
  have "\<And>k. k < ?d \<Longrightarrow> X (drop k s, g(i \<mapsto> take k s)) = []"
    using assms drop_in_takeWhile by metis
  then have c: "concat (map (\<lambda>k. X (drop k s, g(i \<mapsto> take k s))) (rev [n ..< Suc ?d])) =
    (if n \<le> ?d then X (drop ?d s, g(i \<mapsto> take ?d s)) else [])"
    by (rule concat_rev_upt_last)
  have "seq (grp i (greedy n P)) X (s, g) =
    concat (map (\<lambda>k. X (drop k s, g(i \<mapsto> take k s))) (rev [n ..< Suc ?d]))"
    by (simp add: seq_def grp_greedy comp_def del: upt_Suc)
  also note c
  also have "drop ?d s = dropWhile P s"
    by (rule dropWhile_eq_drop [symmetric])
  also have "take ?d s = takeWhile P s"
    by (rule takeWhile_eq_take [symmetric])
  finally show ?thesis .
qed

lemma keeps_cls: "keeps (cls P)"
  by (auto simp: keeps_def cls_def split: list.splits if_splits)

lemma keeps_greedy: "keeps (greedy n P)"
  by (auto simp: keeps_def greedy_def)

lemma keeps_lazy: "keeps (lazy n P)"
  by (auto simp: keeps_def lazy_def)

lemma keeps_eos: "keeps eos"
  by (auto simp: keeps_def eos_def split: if_splits)

lemma keeps_seq: "keeps a \<Longrightarrow> keeps b \<Longrightarrow> keeps (seq a b)"
  unfolding keeps_def seq_def by (auto, metis)

lemma keeps_opt: "keeps a \<Longrightarrow> keeps (opt a)"
  unfolding keeps_def opt_def by auto

lemma first_result_keeps:
  "keeps X \<Longrightarrow> X (t, g) \<noteq> [] \<Longrightarrow> \<exists>s'. first_result (X (t, g)) = Some (s', g)"
  by (cases "X (t, g)") (auto simp: first_result_def keeps_def, metis list.set_intros(1))

lemma splits_upt:
  "map (\<lambda>k. (take k (pre @ t), drop k (pre @ t))) [length pre ..< Suc (length (pre @ t))] = splits pre t"
proof (induction t arbitrary: pre)
  case Nil
  show ?case by simp
next
  case (Cons c cs)
  have "[length pre ..< Suc (length (pre @ c # cs))] =
      length pre # [Suc (length pre) ..< Suc (length (pre @ c # cs))]"
    by (rule upt_conv_Cons) simp
  moreover have "map (\<lambda>k. (take k (pre @ c # cs), drop k (pre @ c # cs)))
      [Suc (length pre) ..< Suc (length (pre @ c # cs))] = splits (pre @ [c]) cs"
    using Cons.IH [of "pre @ [c]"] by (simp del: upt_Suc)
  ultimately show ?case by (simp del: upt_Suc)
qed

lemma lazy_search:
  assumes k: "keeps X"
    and ok: "\<And>t g'. \<forall>c\<in>set t. P c \<Longrightarrow> (X (t, g') \<noteq> []) = ok t"
    and nil: "ok []"
  shows "\<forall>c\<in>set t. P c \<Longrightarrow>
     \<exists>s'. first_result (concat (map (\<lambda>(a, b). X (b, G a)) (splits pre t))) =
       Some (s', G (pre @ lazy_cut ok t))"
proof (induction t arbitrary: pre)
  case Nil
  have "X ([], G pre) \<noteq> []" using ok [of "[]"] nil by simp
  from first_result_keeps [OF k this] show ?case by simp
next
  case (Cons c cs)
  show ?case
  proof (cases "ok (c # cs)")
    case True
    then have ne: "X (c # cs, G pre) \<noteq> []" using ok [of "c # cs"] Cons.prems by simp
    from first_result_keeps [OF k this] obtain s' where
      "first_result (X (c # cs, G pre)) = Some (s', G pre)" by blast
    with True ne show ?thesis
      by (cases "X (c # cs, G pre)") (auto simp: first_result_def)
  next
    case False
    then have e: "X (c # cs, G pre) = []" using ok [of "c # cs"] Cons.prems by simp
    from Cons.prems have "\<forall>c\<in>set cs. P c" by simp
    from Cons.IH [OF this, of "pre @ [c]"] False e show ?thesis by simp
  qed
qed

lemma grp_lazy_splits:
  assumes "\<forall>c\<in>set (x # xs). P c"
  shows "grp i (lazy 1 P) (x # xs, g) = map (\<lambda>(a, b). (b, g(i \<mapsto> a))) (splits [x] xs)"
proof -
  from assms have tw: "takeWhile P (x # xs) = x # xs" by (simp add: takeWhile_eq_all_conv)
  have "grp i (lazy 1 P) (x # xs, g) =
    map (\<lambda>(a, b). (b, g(i \<mapsto> a)))
      (map (\<lambda>k. (take k ([x] @ xs), drop k ([x] @ xs))) [length [x] ..< Suc (length ([x] @ xs))])"
    unfolding grp_lazy tw by (simp add: comp_def del: upt_Suc)
  then show ?thesis unfolding splits_upt .
qed

lemma seq_grp_lazy_first:
  assumes k: "keeps X"
    and ok: "\<And>t g'. \<forall>c\<in>set t. P c \<Longrightarrow> (X (t, g') \<noteq> []) = ok t"
    and nil: "ok []"
    and all: "\<forall>c\<in>set (x # xs). P c"
  shows "\<exists>s'. first_result (seq (grp i (lazy 1 P)) X (x # xs, g)) = Some (s', g(i \<mapsto> x # lazy_cut ok xs))"
proof -
  from all have "\<forall>c\<in>set xs. P c" by simp
  from lazy_search [OF k ok nil this, of "\<lambda>a. g(i \<mapsto> a)" "[x]"] obtain s' where
    "first_result (concat (map (\<lambda>(a, b). X (b, g(i \<mapsto> a))) (splits [x] xs))) =
       Some (s', g(i \<mapsto> [x] @ lazy_cut ok xs))" by blast
  moreover have "seq (grp i (lazy 1 P)) X (x # xs, g) =
    concat (map (\<lambda>(a, b). X (b, g(i \<mapsto> a))) (splits [x] xs))"
    unfolding seq_def grp_lazy_splits [OF all] by (simp add: comp_def case_prod_unfold)
  ultimately show ?thesis by simp
qed




section \<open>The plan pattern\<close>

lemma space_not_dash: "isspace c \<Longrightarrow> \<not> dash c"
  by (auto simp: isspace_def spaces_def dash_def)

lemma dot_not_decimal: "\<not> isdecimal 46"
  by (simp add: isdecimal_def nd_zero_def)

lemma spaces_not_decimal: "list_all (\<lambda>c. \<not> isdecimal c) spaces"
  unfolding spaces_def isdecimal_def nd_zero_def by simp

lemma space_not_decimal: "isspace c \<Longrightarrow> \<not> isdecimal c"
  using spaces_not_decimal unfolding list_all_iff isspace_def spaces_def by blast

lemma isspace_10: "isspace 10"
  by (simp add: isspace_def spaces_def)

lemma eos_nonempty: "(eos (t, g) \<noteq> []) = (t = [] \<or> t = [10])"
  by (simp add: eos_def)

lemma seq_cls: "seq (cls P) X (s, g) = (case s of [] \<Rightarrow> [] | c # cs \<Rightarrow> if P c then X (cs, g) else [])"
  by (simp add: seq_def cls_def split: list.splits)

lemma greedy_dot_end:
  assumes "\<forall>c\<in>set r. dot c" and "r \<noteq> []"
  shows "([], g) \<in> set (greedy 1 dot (r, g))"
proof -
  from assms have tw: "takeWhile dot r = r" by (simp add: takeWhile_eq_all_conv)
  from assms(2) have "length r \<in> set (rev [1 ..< Suc (length r)])" by (cases r) auto
  then have "(drop (length r) r, g) \<in> (\<lambda>k. (drop k r, g)) ` set (rev [1 ..< Suc (length r)])"
    by (rule imageI)
  then show ?thesis by (simp add: greedy_def tw del: upt_Suc)
qed

lemma desc_reaches_end:
  assumes "\<forall>c\<in>set r. dot c"
  shows "(\<exists>st\<in>set (seq (greedy 0 isspace) (greedy 1 dot) (r, g)). eos st \<noteq> []) = (r \<noteq> [])"
proof (cases "r = []")
  case True
  then show ?thesis by (simp add: seq_def greedy_def)
next
  case False
  have "(r, g) \<in> set (greedy 0 isspace (r, g))"
    unfolding greedy_def by (auto simp del: upt_Suc intro!: image_eqI [where x = 0])
  moreover have "([], g) \<in> set (greedy 1 dot (r, g))"
    using assms False by (rule greedy_dot_end)
  ultimately have "([], g) \<in> set (seq (greedy 0 isspace) (greedy 1 dot) (r, g))"
    unfolding seq_def by (auto simp del: upt_Suc)
  moreover have "eos ([], g) \<noteq> []" by (simp add: eos_def)
  ultimately show ?thesis using False by blast
qed

lemma sepdesc_eq:
  "seq (greedy 0 isspace) (seq (cls dash) Y) (t, g) =
     (case dropWhile isspace t of [] \<Rightarrow> [] | h # r \<Rightarrow> if dash h then Y (r, g) else [])"
proof -
  have "\<And>c cs. isspace c \<Longrightarrow> seq (cls dash) Y (c # cs, g) = []"
    by (simp add: seq_cls space_not_dash)
  then have "seq (greedy 0 isspace) (seq (cls dash) Y) (t, g) =
      (if 0 \<le> length (takeWhile isspace t) then seq (cls dash) Y (dropWhile isspace t, g) else [])"
    by (rule seq_greedy_commit)
  then show ?thesis by (simp add: seq_cls)
qed

lemma dropWhile_dot: "\<forall>c\<in>set t. dot c \<Longrightarrow> \<forall>c\<in>set (dropWhile isspace t). dot c"
  by (meson set_dropWhileD)

lemma tail_ok:
  assumes "\<forall>c\<in>set t. dot c"
  shows "(seq (opt (seq (greedy 0 isspace) (seq (cls dash) (seq (greedy 0 isspace) (greedy 1 dot))))) eos (t, g) \<noteq> [])
    = sep_or_end t"
proof -
  let ?Y = "seq (greedy 0 isspace) (greedy 1 dot)"
  let ?sd = "seq (greedy 0 isspace) (seq (cls dash) ?Y)"
  have nl: "t \<noteq> [10]" using assms by (auto simp: dot_def)
  have "(seq (opt ?sd) eos (t, g) \<noteq> []) =
    ((\<exists>st\<in>set (?sd (t, g)). eos st \<noteq> []) \<or> eos (t, g) \<noteq> [])"
    by (auto simp: seq_def opt_def)
  also have "(\<exists>st\<in>set (?sd (t, g)). eos st \<noteq> []) = is_sep t"
  proof (cases "dropWhile isspace t")
    case Nil
    show ?thesis unfolding sepdesc_eq is_sep_def Nil by simp
  next
    case (Cons h r)
    from dropWhile_dot [OF assms] Cons have "\<forall>c\<in>set r. dot c" by simp
    from desc_reaches_end [OF this, of g] show ?thesis
      unfolding sepdesc_eq is_sep_def Cons by auto
  qed
  also have "(eos (t, g) \<noteq> []) = (t = [])" using nl by (simp add: eos_nonempty)
  finally show ?thesis by (auto simp: sep_or_end_def)
qed

lemma keeps_tail:
  "keeps (seq (opt (seq (greedy 0 isspace) (seq (cls dash) (seq (greedy 0 isspace) (greedy 1 dot))))) eos)"
  by (intro keeps_seq keeps_opt keeps_greedy keeps_cls keeps_eos)

lemma first_result_append_hit: "xs \<noteq> [] \<Longrightarrow> first_result (xs @ ys) = first_result xs"
  by (cases xs) (simp_all add: first_result_def)

lemma seq_greedy_first:
  assumes "n \<le> length (takeWhile P s)" and "X (dropWhile P s, g) \<noteq> []"
  shows "first_result (seq (greedy n P) X (s, g)) = first_result (X (dropWhile P s, g))"
proof -
  let ?d = "length (takeWhile P s)"
  from assms(1) have "rev [n ..< Suc ?d] = ?d # rev [n ..< ?d]" by simp
  moreover have "drop ?d s = dropWhile P s" by (rule dropWhile_eq_drop [symmetric])
  ultimately have "seq (greedy n P) X (s, g) =
     concat (map X ((dropWhile P s, g) # map (\<lambda>k. (drop k s, g)) (rev [n ..< ?d])))"
    by (simp add: seq_def greedy_def del: upt_Suc)
  then have "seq (greedy n P) X (s, g) = X (dropWhile P s, g) @
     concat (map X (map (\<lambda>k. (drop k s, g)) (rev [n ..< ?d])))"
    by simp
  then show ?thesis using first_result_append_hit [OF assms(2)] by simp
qed

lemma label_match:
  assumes "\<forall>c\<in>set (x # xs). dot c"
  shows "\<exists>s'. first_result (seq (grp 2 (lazy 1 dot))
     (seq (opt (seq (greedy 0 isspace) (seq (cls dash) (seq (greedy 0 isspace) (greedy 1 dot))))) eos)
       (x # xs, g)) = Some (s', g(2 \<mapsto> x # lazy_cut sep_or_end xs))"
  by (rule seq_grp_lazy_first [OF keeps_tail tail_ok _ assms]) (simp_all add: sep_or_end_def)

lemma label_nomatch:
  "seq (grp 2 (lazy 1 dot)) X ([], g) = []"
  by (simp add: seq_def grp_def lazy_def)




lemma is_sep_before_dash: "is_sep t \<Longrightarrow> before_dash t = takeWhile isspace t"
proof (induction t)
  case Nil
  then show ?case by simp
next
  case (Cons c cs)
  show ?case
  proof (cases "isspace c")
    case True
    with Cons.prems have "is_sep cs" by (simp add: is_sep_def)
    with Cons.IH True show ?thesis by (simp add: space_not_dash)
  next
    case False
    with Cons.prems show ?thesis by (simp add: is_sep_def)
  qed
qed

lemma lazy_cut_before_dash:
  "\<exists>ws. (\<forall>c\<in>set ws. isspace c) \<and> before_dash xs = lazy_cut sep_or_end xs @ ws"
proof (induction xs)
  case Nil
  show ?case by simp
next
  case (Cons c cs)
  show ?case
  proof (cases "is_sep (c # cs)")
    case True
    then have "before_dash (c # cs) = takeWhile isspace (c # cs)" by (rule is_sep_before_dash)
    moreover have "\<forall>x\<in>set (takeWhile isspace (c # cs)). isspace x" by (meson set_takeWhileD)
    moreover have "lazy_cut sep_or_end (c # cs) = []" using True by (simp add: sep_or_end_def)
    ultimately show ?thesis by (metis append_Nil)
  next
    case False
    have "\<not> (dash c \<and> cs \<noteq> [])"
    proof
      assume a: "dash c \<and> cs \<noteq> []"
      then have "\<not> isspace c" using space_not_dash by blast
      with a have "is_sep (c # cs)" by (simp add: is_sep_def)
      with False show False by simp
    qed
    with False Cons.IH show ?thesis by (auto simp: sep_or_end_def)
  qed
qed

lemma strip_append_spaces:
  assumes "\<forall>c\<in>set ws. isspace c" and "\<not> isspace x"
  shows "strip (x # a @ ws) = strip (x # a)"
proof -
  have "dropWhile isspace (rev ws @ rev a @ [x]) = dropWhile isspace (rev a @ [x])"
    using assms(1) by (intro dropWhile_append2) simp
  with assms(2) show ?thesis by (simp add: strip_def)
qed

lemma strip_lazy_cut:
  assumes "\<not> isspace x"
  shows "strip (x # lazy_cut sep_or_end xs) = strip (x # before_dash xs)"
proof -
  from lazy_cut_before_dash [of xs] obtain ws where
    "\<forall>c\<in>set ws. isspace c" "before_dash xs = lazy_cut sep_or_end xs @ ws" by blast
  with strip_append_spaces [OF this(1) assms] show ?thesis by simp
qed

lemma plan_re_eq:
  "plan_re (l, g) =
    (if takeWhile isdecimal l = [] then []
     else case dropWhile isdecimal l of
       [] \<Rightarrow> []
     | c # r \<Rightarrow> if c \<noteq> 46 then []
         else seq (greedy 0 isspace) (seq (grp 2 (lazy 1 dot))
           (seq (opt (seq (greedy 0 isspace) (seq (cls dash) (seq (greedy 0 isspace) (greedy 1 dot))))) eos))
           (r, g(1 \<mapsto> takeWhile isdecimal l)))"
proof -
  let ?X2 = "seq (greedy 0 isspace) (seq (grp 2 (lazy 1 dot))
           (seq (opt (seq (greedy 0 isspace) (seq (cls dash) (seq (greedy 0 isspace) (greedy 1 dot))))) eos))"
  have "\<And>c cs g'. isdecimal c \<Longrightarrow> seq (cls (chr 46)) ?X2 (c # cs, g') = []"
    using dot_not_decimal by (auto simp: seq_cls chr_def)
  then have A: "seq (grp 1 (greedy 1 isdecimal)) (seq (cls (chr 46)) ?X2) (l, g) =
    (if 1 \<le> length (takeWhile isdecimal l)
     then seq (cls (chr 46)) ?X2 (dropWhile isdecimal l, g(1 \<mapsto> takeWhile isdecimal l)) else [])"
    by (rule seq_grp_greedy_commit)
  have B: "\<And>ds r g'. (if 1 \<le> length ds then seq (cls (chr 46)) ?X2 (r, g') else []) =
     (if ds = [] then [] else case r of [] \<Rightarrow> [] | c # r' \<Rightarrow> if c \<noteq> 46 then [] else ?X2 (r', g'))"
    subgoal for ds r g' by (cases ds; cases r) (simp_all add: seq_cls chr_def)
    done
  show ?thesis unfolding plan_re_def A B ..
qed

lemma stripped_rest:
  assumes "l = ds @ c # r" and "l \<noteq> [] \<longrightarrow> \<not> isspace (last l)" and "dropWhile isspace r = []"
  shows "r = []"
proof (rule ccontr)
  assume "r \<noteq> []"
  then have "last l = last r" using assms(1) by simp
  moreover have "last r \<in> set r" using \<open>r \<noteq> []\<close> by simp
  moreover have "\<forall>x\<in>set r. isspace x" using assms(3) by (simp add: dropWhile_eq_Nil_conv)
  ultimately show False using assms(1,2) by auto
qed

lemma plan_label_eq:
  assumes nl: "\<forall>c\<in>set l. dot c" and st: "l \<noteq> [] \<longrightarrow> \<not> isspace (last l)"
  shows "plan_label l = numbered_item l"
proof (cases "takeWhile isdecimal l = []")
  case True
  show ?thesis
    unfolding plan_label_def re_match_def first_result_def plan_re_eq numbered_item_def True by simp
next
  case ds: False
  show ?thesis
  proof (cases "dropWhile isdecimal l")
    case Nil
    show ?thesis
      unfolding plan_label_def re_match_def first_result_def plan_re_eq numbered_item_def if_not_P [OF ds] Nil by simp
  next
    case dw: (Cons c r)
    show ?thesis
    proof (cases "c = 46")
      case False
      show ?thesis
        unfolding plan_label_def re_match_def first_result_def plan_re_eq numbered_item_def if_not_P [OF ds] dw
        using False by simp
    next
      case True
      let ?X3 = "seq (grp 2 (lazy 1 dot))
           (seq (opt (seq (greedy 0 isspace) (seq (cls dash) (seq (greedy 0 isspace) (greedy 1 dot))))) eos)"
      let ?g = "Map.empty(1 \<mapsto> takeWhile isdecimal l)"
      have l: "l = takeWhile isdecimal l @ c # r"
        using dw by (metis takeWhile_dropWhile_id)
      have re: "plan_re (l, Map.empty) = seq (greedy 0 isspace) ?X3 (r, ?g)"
        unfolding plan_re_eq if_not_P [OF ds] dw using True by simp
      have ni: "numbered_item l =
         (case dropWhile isspace r of [] \<Rightarrow> None | x # xs \<Rightarrow> Some (strip (x # before_dash xs)))"
        unfolding numbered_item_def if_not_P [OF ds] dw using True by simp
      show ?thesis
      proof (cases "dropWhile isspace r")
        case Nil
        from l st Nil have "r = []" by (rule stripped_rest)
        then have "seq (greedy 0 isspace) ?X3 (r, ?g) = []"
          by (simp add: seq_def greedy_def grp_def lazy_def)
        then show ?thesis
          unfolding plan_label_def re_match_def first_result_def re ni Nil by simp
      next
        case (Cons x xs)
        have "set (dropWhile isspace r) \<subseteq> set r" by (meson set_dropWhileD subsetI)
        moreover have "set r \<subseteq> set (dropWhile isdecimal l)" unfolding dw by auto
        moreover have "set (dropWhile isdecimal l) \<subseteq> set l" by (meson set_dropWhileD subsetI)
        ultimately have all: "\<forall>c\<in>set (x # xs). dot c" using nl unfolding Cons by blast
        have nsp: "\<not> isspace x" using Cons by (metis hd_dropWhile list.sel(1) list.discI)
        from label_match [OF all, of ?g] obtain s' where
          m: "first_result (?X3 (x # xs, ?g)) = Some (s', ?g(2 \<mapsto> x # lazy_cut sep_or_end xs))"
          by blast
        then have ne: "?X3 (dropWhile isspace r, ?g) \<noteq> []"
          unfolding Cons by (auto simp: first_result_def)
        have "first_result (seq (greedy 0 isspace) ?X3 (r, ?g)) = first_result (?X3 (dropWhile isspace r, ?g))"
          by (rule seq_greedy_first [of 0 isspace r ?X3 ?g]) (simp, rule ne)
        then have "first_result (plan_re (l, Map.empty)) =
            Some (s', ?g(2 \<mapsto> x # lazy_cut sep_or_end xs))"
          unfolding re Cons m .
        then have "plan_label l = Some (strip (x # lazy_cut sep_or_end xs))"
          unfolding plan_label_def re_match_first by simp
        then show ?thesis
          unfolding ni Cons strip_lazy_cut [OF nsp] by simp
      qed
    qed
  qed
qed




lemma sets_seq: "sets i b \<Longrightarrow> sets i (seq a b)"
  unfolding sets_def seq_def by auto

lemma sets_grp: "keeps X \<Longrightarrow> sets i (seq (grp i a) X)"
  unfolding sets_def keeps_def seq_def grp_def by fastforce

lemma sets_match: "sets i r \<Longrightarrow> re_match r l = Some g \<Longrightarrow> g i \<noteq> None"
  unfolding sets_def re_match_def first_result_def by (auto split: list.splits) (metis list.set_intros(1))

lemma plan_re_group2: "re_match plan_re l = Some g \<Longrightarrow> g 2 \<noteq> None"
proof (rule sets_match)
  show "sets 2 plan_re"
    unfolding plan_re_def by (intro sets_seq sets_grp keeps_tail)
qed




section \<open>Plan lines\<close>

lemma split_nl_nonempty: "split_nl t \<noteq> []"
  by (induction t) (auto split: list.splits)

lemma split_nl_no_nl: "l \<in> set (split_nl t) \<Longrightarrow> 10 \<notin> set l"
proof (induction t arbitrary: l)
  case Nil
  then show ?case by simp
next
  case (Cons c cs)
  obtain h r where hr: "split_nl cs = h # r"
    using split_nl_nonempty [of cs] by (cases "split_nl cs") auto
  from Cons.IH [of h] hr have h: "10 \<notin> set h" by simp
  from Cons.IH hr have r: "\<And>x. x \<in> set r \<Longrightarrow> 10 \<notin> set x" by simp
  show ?case
  proof (cases "c = 10")
    case True
    with Cons.prems hr h r show ?thesis by auto
  next
    case False
    with Cons.prems hr h r show ?thesis by auto
  qed
qed

lemma split_nl_covers: "c \<in> set t \<Longrightarrow> c \<noteq> 10 \<Longrightarrow> \<exists>l\<in>set (split_nl t). c \<in> set l"
proof (induction t)
  case Nil
  then show ?case by simp
next
  case (Cons a cs)
  obtain h r where hr: "split_nl cs = h # r"
    using split_nl_nonempty [of cs] by (cases "split_nl cs") auto
  show ?case
  proof (cases "c = a")
    case True
    with Cons.prems hr show ?thesis by simp
  next
    case False
    with Cons.prems have "c \<in> set cs" by simp
    from Cons.IH [OF this Cons.prems(2)] hr show ?thesis by auto
  qed
qed

lemma strip_subset: "set (strip l) \<subseteq> set l"
proof -
  have "set (strip l) \<subseteq> set (dropWhile isspace l)"
    unfolding strip_def by (metis set_dropWhileD set_rev subsetI)
  also have "\<dots> \<subseteq> set l" by (meson set_dropWhileD subsetI)
  finally show ?thesis .
qed

lemma strip_last: "strip l \<noteq> [] \<Longrightarrow> \<not> isspace (last (strip l))"
proof -
  assume a: "strip l \<noteq> []"
  let ?d = "dropWhile isspace (rev (dropWhile isspace l))"
  from a have ne: "?d \<noteq> []" by (simp add: strip_def)
  then have "\<not> isspace (hd ?d)" by (rule hd_dropWhile)
  moreover have "last (strip l) = hd ?d"
    unfolding strip_def using ne by (simp add: last_rev)
  ultimately show ?thesis by simp
qed

lemma strip_hd: "strip l \<noteq> [] \<Longrightarrow> \<not> isspace (hd (strip l))"
proof -
  assume a: "strip l \<noteq> []"
  let ?a = "dropWhile isspace l"
  have "?a = [] \<Longrightarrow> strip l = []" unfolding strip_def by (simp del: dropWhile_eq_Nil_conv)
  with a have ne: "?a \<noteq> []" by blast
  then have nsp: "\<not> isspace (hd ?a)" by (rule hd_dropWhile)
  from ne obtain x xs where x: "?a = x # xs" by (cases ?a) auto
  with nsp have "dropWhile isspace (rev xs @ [x]) = dropWhile isspace (rev xs) @ [x] \<or>
     dropWhile isspace (rev xs @ [x]) = [x]"
    by (metis dropWhile_append dropWhile.simps list.sel(1))
  then have "hd (rev (dropWhile isspace (rev xs @ [x]))) = x" by auto
  with x nsp show ?thesis by (simp add: strip_def)
qed

lemma strip_eq_Nil: "(strip l = []) = (\<forall>c\<in>set l. isspace c)"
proof
  assume "strip l = []"
  then have "\<forall>x\<in>set (dropWhile isspace l). isspace x"
    by (simp add: strip_def dropWhile_eq_Nil_conv)
  then have "dropWhile isspace l = []"
    by (metis hd_dropWhile list.set_sel(1))
  then show "\<forall>c\<in>set l. isspace c" by (simp add: dropWhile_eq_Nil_conv)
next
  assume "\<forall>c\<in>set l. isspace c"
  then have "dropWhile isspace l = []" by (simp add: dropWhile_eq_Nil_conv)
  then show "strip l = []" unfolding strip_def by (simp del: dropWhile_eq_Nil_conv)
qed

lemma plan_lines_props:
  assumes "l \<in> set (plan_lines text)"
  shows "l \<noteq> []" and "\<forall>c\<in>set l. dot c" and "\<not> isspace (last l)"
proof -
  from assms obtain r where r: "r \<in> set (split_nl text)" "l = strip r" "l \<noteq> []"
    by (auto simp: plan_lines_def)
  show "l \<noteq> []" by fact
  from split_nl_no_nl [OF r(1)] strip_subset [of r] r(2) show "\<forall>c\<in>set l. dot c"
    by (auto simp: dot_def)
  from strip_last [of r] r(2,3) show "\<not> isspace (last l)" by simp
qed

lemma plan_label_line: "l \<in> set (plan_lines text) \<Longrightarrow> plan_label l = numbered_item l"
  using plan_lines_props [of l "text"] by (intro plan_label_eq) auto

lemma map_filter_cong_set: "(\<And>x. x \<in> set xs \<Longrightarrow> f x = g x) \<Longrightarrow> List.map_filter f xs = List.map_filter g xs"
proof (induction xs)
  case Nil
  show ?case by (simp add: List.map_filter_simps)
next
  case (Cons a xs)
  then have "f a = g a" and "List.map_filter f xs = List.map_filter g xs" by auto
  then show ?case by (cases "g a") (simp_all add: List.map_filter_simps)
qed

lemma numbered_lines: "List.map_filter plan_label (plan_lines text) = List.map_filter numbered_item (plan_lines text)"
  by (rule map_filter_cong_set) (rule plan_label_line)

lemma map_filter_eq_Nil: "(List.map_filter f xs = []) = (\<forall>x\<in>set xs. f x = None)"
  by (induction xs) (auto simp: List.map_filter_simps split: option.splits)

lemma plan_lines_nonempty: "strip t \<noteq> [] \<Longrightarrow> plan_lines (strip t) \<noteq> []"
proof -
  assume a: "strip t \<noteq> []"
  then have h: "\<not> isspace (hd (strip t))" by (rule strip_hd)
  from a have m: "hd (strip t) \<in> set (strip t)" by simp
  from h have "hd (strip t) \<noteq> 10" using isspace_10 by metis
  from split_nl_covers [OF m this] obtain l where
    l: "l \<in> set (split_nl (strip t))" "hd (strip t) \<in> set l" by blast
  with h have "strip l \<noteq> []" by (auto simp: strip_eq_Nil)
  with l(1) have "strip l \<in> set (plan_lines (strip t))" by (simp add: plan_lines_def)
  then show ?thesis by auto
qed

text \<open>
  The plan in terms of the scan: the scanned labels of the lines that have one, in the
  order of the lines; the first six lines when no line has one.
\<close>

lemma parse_plan_scan:
  "((\<exists>l\<in>set (plan_lines text). numbered_item l \<noteq> None) \<longrightarrow>
      fst (parse_plan [] text) = List.map_filter numbered_item (plan_lines text)) \<and>
   ((\<forall>l\<in>set (plan_lines text). numbered_item l = None) \<and> plan_lines text \<noteq> [] \<longrightarrow>
      fst (parse_plan [] text) = take 6 (plan_lines text) \<and> fst (parse_plan [] text) \<noteq> [])"
proof -
  let ?items = "List.map_filter numbered_item (plan_lines text)"
  have eq: "fst (parse_plan [] text) = (if ?items = [] then take 6 (plan_lines text) else ?items)"
    by (simp add: parse_plan_def numbered_lines Let_def)
  show ?thesis
  proof (rule conjI; rule impI)
    assume "\<exists>l\<in>set (plan_lines text). numbered_item l \<noteq> None"
    then have "?items \<noteq> []" by (simp add: map_filter_eq_Nil)
    with eq show "fst (parse_plan [] text) = ?items" by simp
  next
    assume a: "(\<forall>l\<in>set (plan_lines text). numbered_item l = None) \<and> plan_lines text \<noteq> []"
    then have "?items = []" by (simp add: map_filter_eq_Nil)
    with eq have e: "fst (parse_plan [] text) = take 6 (plan_lines text)" by simp
    moreover have "take 6 (plan_lines text) \<noteq> []" using a by (cases "plan_lines text") simp_all
    ultimately show "fst (parse_plan [] text) = take 6 (plan_lines text) \<and> fst (parse_plan [] text) \<noteq> []"
      by simp
  qed
qed

section \<open>Claims about plan parsing\<close>

lemmas eval_str = py_def strip_def isspace_def spaces_def isdecimal_def nd_zero_def dash_def dot_def

lemma decimal_not_nl: "isdecimal c \<Longrightarrow> c \<noteq> 10"
  using space_not_decimal isspace_10 by blast

text \<open>
  Claim C1. Plan extraction: the plan is to consist of the labels of the numbered
  lines, each without its trailing separator and description. The runner's own plan
  format (system prompt, lines 208 to 216) is
  \<^verbatim>\<open><number>. <PipelineLabel> \<close> em dash \<^verbatim>\<open> <one sentence description>\<close>; for the line
  \<^verbatim>\<open>1. Set-up environment\<close>, an em dash (or a hyphen) and \<^verbatim>\<open>Install deps\<close>, the label is
  \<^verbatim>\<open>Set-up environment\<close>. The code cuts it at the hyphen inside the label: the plan it
  extracts is \<^verbatim>\<open>Set\<close>.
\<close>

theorem hyphenated_label_cut:
  "fst (parse_plan [] (py ''1. Set-up environment '' @ [8212] @ py '' Install deps'')) = [py ''Set'']
   \<and> fst (parse_plan [] (py ''1. Set-up environment - Install deps'')) = [py ''Set'']"
  using parse_plan_scan [of "py ''1. Set-up environment '' @ [8212] @ py '' Install deps''"]
    parse_plan_scan [of "py ''1. Set-up environment - Install deps''"]
  by (simp add: plan_lines_def numbered_item_def eval_str List.map_filter_simps)

lemma before_dash_cut:
  "\<forall>c\<in>set a. \<not> dash c \<Longrightarrow> dash h \<Longrightarrow> b \<noteq> [] \<Longrightarrow> before_dash (a @ h # b) = a"
  by (induction a) auto

lemma before_dash_whole: "\<forall>c\<in>set (butlast r). \<not> dash c \<Longrightarrow> before_dash r = r"
proof (induction r)
  case Nil
  show ?case by simp
next
  case (Cons c cs)
  show ?case
  proof (cases "cs = []")
    case True
    then show ?thesis by simp
  next
    case False
    with Cons.prems have "\<not> dash c" and "\<forall>c\<in>set (butlast cs). \<not> dash c" by simp_all
    with Cons.IH show ?thesis by simp
  qed
qed

lemma strip_id: "\<not> isspace x \<Longrightarrow> \<not> isspace (last (x # r)) \<Longrightarrow> strip (x # r) = x # r"
proof -
  assume x: "\<not> isspace x" and l: "\<not> isspace (last (x # r))"
  have "dropWhile isspace (rev (x # r)) = rev (x # r)"
    unfolding dropWhile_eq_self_iff hd_rev using l by blast
  moreover have "dropWhile isspace (x # r) = x # r" using x by simp
  ultimately show ?thesis unfolding strip_def by (simp only: rev_rev_ident)
qed

lemma numbered_item_after:
  assumes ds: "ds \<noteq> []" "\<forall>c\<in>set ds. isdecimal c"
    and ws: "\<forall>c\<in>set ws. isspace c"
    and x: "\<not> isspace x"
  shows "numbered_item (ds @ [46] @ ws @ [x] @ t) = Some (strip (x # before_dash t))"
proof -
  let ?l = "ds @ [46] @ ws @ [x] @ t"
  have tw: "takeWhile isdecimal ?l = ds"
    using ds(2) dot_not_decimal by (simp add: takeWhile_tail)
  have dw: "dropWhile isdecimal ?l = 46 # ws @ [x] @ t"
    using ds(2) dot_not_decimal by (simp add: dropWhile_append3)
  have dws: "dropWhile isspace (ws @ [x] @ t) = x # t"
    using ws x by (simp add: dropWhile_append3)
  show ?thesis unfolding numbered_item_def tw dw using ds(1) dws by simp
qed

text \<open>
  Claim C9, as amended. Hyphenated labels are split without surrounding white space:
  on a numbered plan line (digits, a period, white space, then the label text) the step
  label kept is the text before the first hyphen or em dash that comes after the first
  character of the label text and has at least one character after it, trimmed, whether
  or not there are spaces around it; when there is no such hyphen or em dash (the only
  ones are the first character of the label text or the last character of the line) the
  whole label text is kept.
\<close>

theorem hyphen_split:
  assumes ds: "ds \<noteq> []" "\<forall>c\<in>set ds. isdecimal c"
    and ws: "\<forall>c\<in>set ws. isspace c \<and> c \<noteq> 10"
    and x: "\<not> isspace x"
  shows "((\<forall>c\<in>set a. \<not> dash c \<and> c \<noteq> 10) \<and> dash h \<and> b \<noteq> [] \<and> \<not> isspace (last b) \<and> (\<forall>c\<in>set b. c \<noteq> 10) \<longrightarrow>
            plan_label (ds @ [46] @ ws @ [x] @ a @ [h] @ b) = Some (strip (x # a)))
       \<and> ((\<forall>c\<in>set (butlast r). \<not> dash c) \<and> (\<forall>c\<in>set r. c \<noteq> 10) \<and> \<not> isspace (last (x # r)) \<longrightarrow>
            plan_label (ds @ [46] @ ws @ [x] @ r) = Some (x # r))"
proof (rule conjI; rule impI)
  have dnl: "\<forall>c\<in>set ds. c \<noteq> 10" using ds(2) decimal_not_nl by blast
  have xnl: "x \<noteq> 10" using x isspace_10 by metis
  {
    assume h: "(\<forall>c\<in>set a. \<not> dash c \<and> c \<noteq> 10) \<and> dash h \<and> b \<noteq> [] \<and> \<not> isspace (last b) \<and> (\<forall>c\<in>set b. c \<noteq> 10)"
    let ?l = "ds @ [46] @ ws @ [x] @ a @ [h] @ b"
    from h have "h \<noteq> 10" by (auto simp: dash_def)
    with dnl xnl ws h have nl: "\<forall>c\<in>set ?l. dot c" by (auto simp: dot_def)
    have last: "?l \<noteq> [] \<longrightarrow> \<not> isspace (last ?l)" using h by simp
    have bd: "before_dash (a @ h # b) = a" using h by (intro before_dash_cut) auto
    have "plan_label ?l = numbered_item ?l" using nl last by (rule plan_label_eq)
    also have "\<dots> = Some (strip (x # before_dash (a @ [h] @ b)))"
      using ds ws x by (intro numbered_item_after) auto
    finally show "plan_label ?l = Some (strip (x # a))" using bd by simp
  }
  {
    assume h: "(\<forall>c\<in>set (butlast r). \<not> dash c) \<and> (\<forall>c\<in>set r. c \<noteq> 10) \<and> \<not> isspace (last (x # r))"
    let ?l = "ds @ [46] @ ws @ [x] @ r"
    from dnl xnl ws h have nl: "\<forall>c\<in>set ?l. dot c" by (auto simp: dot_def)
    have "last ?l = last (x # r)" by simp
    with h have last: "?l \<noteq> [] \<longrightarrow> \<not> isspace (last ?l)" by simp
    have bd: "before_dash r = r" using h by (intro before_dash_whole) auto
    have st: "strip (x # r) = x # r" using x h by (intro strip_id) auto
    have "plan_label ?l = numbered_item ?l" using nl last by (rule plan_label_eq)
    also have "\<dots> = Some (strip (x # before_dash r))"
      using ds ws x by (intro numbered_item_after) auto
    finally show "plan_label ?l = Some (x # r)" using bd st by simp
  }
qed

text \<open>
  The example of the claim, \<^verbatim>\<open>1. Set-up environment\<close>, keeps \<^verbatim>\<open>Set\<close>; \<^verbatim>\<open>1. -a-b\<close> keeps
  \<^verbatim>\<open>-a\<close>; \<^verbatim>\<open>2. Deploy -\<close> is kept whole.
\<close>

theorem hyphen_split_witness:
  "plan_label (py ''1. Set-up environment'') = Some (py ''Set'') \<and>
   plan_label (py ''1. -a-b'') = Some (py ''-a'') \<and>
   plan_label (py ''2. Deploy -'') = Some (py ''Deploy -'')"
  using hyphen_split [of "py ''1''" "py '' ''" 83 "py ''et''" 45 "py ''up environment''" "[]"]
    hyphen_split [of "py ''1''" "py '' ''" 45 "py ''a''" 45 "py ''b''" "[]"]
    hyphen_split [of "py ''2''" "py '' ''" 68 "[]" 45 "py ''x''" "py ''eploy -''"]
  by (simp add: eval_str)

text \<open>
  C9 as first stated fails for a hyphen that begins the label or ends the line: the
  label kept is not the text before that hyphen.
\<close>

theorem hyphen_split_counterexample:
  "plan_label (py ''1. -v flag'') = Some (py ''-v flag'') \<and> plan_label (py ''1. Foo-'') = Some (py ''Foo-'')"
  using plan_label_eq [of "py ''1. -v flag''"] plan_label_eq [of "py ''1. Foo-''"]
  by (simp add: numbered_item_def eval_str)

section \<open>What each call adds to the trace\<close>

lemma adds_refl: "adds Q s s"
  by (simp add: adds_def)

lemma adds_trans: "adds Q s s1 \<Longrightarrow> adds Q s1 s2 \<Longrightarrow> adds Q s s2"
  by (auto simp: adds_def)

lemma adds_mono: "adds Q s s' \<Longrightarrow> (\<And>e. Q e \<Longrightarrow> R e) \<Longrightarrow> adds R s s'"
  unfolding adds_def list_all_iff by blast

lemma adds_field: "adds Q s s' \<Longrightarrow> trace (s'\<lparr>step_index := n\<rparr>) = trace s' \<and> adds Q s (s'\<lparr>step_index := n\<rparr>)"
  by (simp add: adds_def)

lemma posted_append: "posted path (es @ fs) = posted path es @ posted path fs"
  by (induction path es rule: posted.induct) auto

lemma git_cmds_append: "git_cmds (es @ fs) = git_cmds es @ git_cmds fs"
  by (induction es rule: git_cmds.induct) auto

lemma deploys_append: "deploys (es @ fs) = deploys es @ deploys fs"
  by (induction es rule: deploys.induct) auto

lemma posted_none: "list_all (\<lambda>e. \<not> is_post_to path e) es \<Longrightarrow> posted path es = []"
  by (induction path es rule: posted.induct) auto

lemma git_cmds_none: "list_all (\<lambda>e. \<not> is_git e) es \<Longrightarrow> git_cmds es = []"
  by (induction es rule: git_cmds.induct) auto

lemma deploys_none: "list_all (\<lambda>e. \<not> is_deploy e) es \<Longrightarrow> deploys es = []"
  by (induction es rule: deploys.induct) auto

lemma adds_posted: "adds (\<lambda>e. \<not> is_post_to path e) s s' \<Longrightarrow> posted path (trace s') = posted path (trace s)"
  by (auto simp: adds_def posted_append posted_none)

lemma adds_git_cmds: "adds (\<lambda>e. \<not> is_git e) s s' \<Longrightarrow> git_cmds (trace s') = git_cmds (trace s)"
  by (auto simp: adds_def git_cmds_append git_cmds_none)

lemma adds_deploys: "adds (\<lambda>e. \<not> is_deploy e) s s' \<Longrightarrow> deploys (trace s') = deploys (trace s)"
  by (auto simp: adds_def deploys_append deploys_none)

lemma log_msg_adds: "Q (Log msg) \<Longrightarrow> adds Q s (log_msg msg s)"
  by (simp add: adds_def log_msg_def)

lemma post_adds: "(\<And>m. Q (Log m)) \<Longrightarrow> Q (Post path body) \<Longrightarrow> adds Q s (post c w path body s)"
  by (auto simp: adds_def post_def Let_def split: option.splits)

lemma post_posted:
  "callback_base c \<noteq> [] \<Longrightarrow> posted path (trace (post c w path body s)) = posted path (trace s) @ [body]"
  by (auto simp: post_def Let_def posted_append split: option.splits)

lemma post_fields [simp]:
  "push_url (post c w path body s) = push_url s"
  "plan_steps (post c w path body s) = plan_steps s"
  "total_steps (post c w path body s) = total_steps s"
  "step_index (post c w path body s) = step_index s"
  "started_sent (post c w path body s) = started_sent s"
  by (auto simp: post_def Let_def split: option.splits)

lemma log_msg_fields [simp]:
  "push_url (log_msg m s) = push_url s"
  "plan_steps (log_msg m s) = plan_steps s"
  "total_steps (log_msg m s) = total_steps s"
  "step_index (log_msg m s) = step_index s"
  "started_sent (log_msg m s) = started_sent s"
  by (simp_all add: log_msg_def)

lemma run_git_adds: "(\<And>cmd. Q (Git cmd)) \<Longrightarrow> adds Q s (snd (run_git w cmds s))"
proof (induction cmds arbitrary: s)
  case Nil
  show ?case by (simp add: adds_refl)
next
  case (Cons cmd cmds)
  let ?s1 = "s\<lparr>trace := trace s @ [Git cmd]\<rparr>"
  have a: "adds Q s ?s1" using Cons.prems by (simp add: adds_def)
  show ?case
  proof (cases "git w (trace s @ [Git cmd])")
    case Exit0
    from Cons.IH [OF Cons.prems, of ?s1] have "adds Q ?s1 (snd (run_git w cmds ?s1))" .
    with a Exit0 show ?thesis by (auto simp: Let_def intro: adds_trans)
  next
    case (NonZero e err)
    with a show ?thesis by (simp add: Let_def)
  next
    case Escaped
    with a show ?thesis by (simp add: Let_def)
  qed
qed

lemma run_git_fields [simp]:
  "push_url (snd (run_git w cmds s)) = push_url s"
  "plan_steps (snd (run_git w cmds s)) = plan_steps s"
  "total_steps (snd (run_git w cmds s)) = total_steps s"
  "step_index (snd (run_git w cmds s)) = step_index s"
  "started_sent (snd (run_git w cmds s)) = started_sent s"
  by (induction cmds arbitrary: s; simp add: Let_def split: proc.splits)+

lemma run_git_all:
  "fst (run_git w cmds s) = Exit0 \<Longrightarrow> git_cmds (trace (snd (run_git w cmds s))) = git_cmds (trace s) @ cmds"
proof (induction cmds arbitrary: s)
  case Nil
  show ?case by simp
next
  case (Cons cmd cmds)
  let ?s1 = "s\<lparr>trace := trace s @ [Git cmd]\<rparr>"
  from Cons.prems have e: "git w (trace s @ [Git cmd]) = Exit0"
    by (cases "git w (trace s @ [Git cmd])") (simp_all add: Let_def)
  with Cons.prems have "fst (run_git w cmds ?s1) = Exit0" by (simp add: Let_def)
  from Cons.IH [OF this] e show ?case by (simp add: Let_def git_cmds_append)
qed

lemma deployed_adds:
  "(\<And>m. Q (Log m)) \<Longrightarrow> (\<And>b. Q (Post (py ''/v1.0/log/deployment'') b)) \<Longrightarrow> adds Q s (deployed c w v s)"
  unfolding deployed_def Let_def
  by (auto intro!: post_adds log_msg_adds adds_trans [OF log_msg_adds post_adds] split: json.splits)

lemma deployed_fields [simp]:
  "push_url (deployed c w v s) = push_url s"
  "plan_steps (deployed c w v s) = plan_steps s"
  "total_steps (deployed c w v s) = total_steps s"
  "step_index (deployed c w v s) = step_index s"
  "started_sent (deployed c w v s) = started_sent s"
  by (auto simp: deployed_def Let_def split: json.splits)

lemma trigger_adds:
  assumes "\<And>m. Q (Log m)" and "\<And>b. Q (Post (py ''/v1.0/log/deployment'') b)" and "\<And>t b. Q (Deploy t b)"
  shows "adds Q s (trigger_vercel_deploy c w s)"
proof -
  have d: "\<And>t b v. adds Q s (deployed c w v (s\<lparr>trace := trace s @ [Deploy t b]\<rparr>))"
  proof -
    fix t b v
    have "adds Q s (s\<lparr>trace := trace s @ [Deploy t b]\<rparr>)" using assms(3) by (simp add: adds_def)
    moreover have "adds Q (s\<lparr>trace := trace s @ [Deploy t b]\<rparr>) (deployed c w v (s\<lparr>trace := trace s @ [Deploy t b]\<rparr>))"
      using assms(1,2) by (rule deployed_adds)
    ultimately show "adds Q s (deployed c w v (s\<lparr>trace := trace s @ [Deploy t b]\<rparr>))" by (rule adds_trans)
  qed
  have l: "\<And>t b m. adds Q s (log_msg m (s\<lparr>trace := trace s @ [Deploy t b]\<rparr>))"
    using assms(1,3) by (simp add: adds_def log_msg_def)
  show ?thesis
    unfolding trigger_vercel_deploy_def Let_def
    using d l assms(1) by (auto simp: adds_refl log_msg_adds split: option.splits vercel_reply.splits)
qed

lemma trigger_fields [simp]:
  "push_url (trigger_vercel_deploy c w s) = push_url s"
  "plan_steps (trigger_vercel_deploy c w s) = plan_steps s"
  "total_steps (trigger_vercel_deploy c w s) = total_steps s"
  "step_index (trigger_vercel_deploy c w s) = step_index s"
  "started_sent (trigger_vercel_deploy c w s) = started_sent s"
  by (auto simp: trigger_vercel_deploy_def Let_def split: option.splits vercel_reply.splits)

section \<open>Claims about publishing\<close>

lemma commit_and_push_fields [simp]:
  "push_url (state_of (commit_and_push c w idx summary s)) = push_url s"
  "plan_steps (state_of (commit_and_push c w idx summary s)) = plan_steps s"
  "total_steps (state_of (commit_and_push c w idx summary s)) = total_steps s"
  "step_index (state_of (commit_and_push c w idx summary s)) = step_index s"
  "started_sent (state_of (commit_and_push c w idx summary s)) = started_sent s"
proof -
  obtain r s1 where r: "run_git w (publish_cmds c idx summary) s = (r, s1)" by (cases "run_git w (publish_cmds c idx summary) s")
  then have s1: "s1 = snd (run_git w (publish_cmds c idx summary) s)" by simp
  have f: "push_url s1 = push_url s" "plan_steps s1 = plan_steps s" "total_steps s1 = total_steps s"
    "step_index s1 = step_index s" "started_sent s1 = started_sent s"
    unfolding s1 by simp_all
  show "push_url (state_of (commit_and_push c w idx summary s)) = push_url s"
    "plan_steps (state_of (commit_and_push c w idx summary s)) = plan_steps s"
    "total_steps (state_of (commit_and_push c w idx summary s)) = total_steps s"
    "step_index (state_of (commit_and_push c w idx summary s)) = step_index s"
    "started_sent (state_of (commit_and_push c w idx summary s)) = started_sent s"
    unfolding commit_and_push_def r using f by (cases r; simp)+
qed

lemma commit_and_push_adds:
  assumes "\<And>m. Q (Log m)" and "\<And>cmd. Q (Git cmd)" and "\<And>t b. Q (Deploy t b)"
    and "\<And>b. Q (Post (py ''/v1.0/log/deployment'') b)"
    and "\<And>b. Q (Post (py ''/v1.0/log/push'') b)"
    and "\<And>b. Q (Post (py ''/v1.0/log/error'') b)"
  shows "adds Q s (state_of (commit_and_push c w idx summary s))"
proof (cases "truthy (push_url s)")
  case False
  then show ?thesis by (simp add: commit_and_push_def adds_refl)
next
  case True
  obtain r s1 where r: "run_git w (publish_cmds c idx summary) s = (r, s1)"
    by (cases "run_git w (publish_cmds c idx summary) s")
  then have "s1 = snd (run_git w (publish_cmds c idx summary) s)" by simp
  with run_git_adds [of Q s w "publish_cmds c idx summary"] assms(2) have a1: "adds Q s s1" by simp
  show ?thesis
  proof (cases r)
    case Exit0
    let ?s2 = "log_msg (py ''pushed step '' @ str_nat idx) s1"
    let ?s3 = "post c w (py ''/v1.0/log/push'') (push_body c idx summary) ?s2"
    have "adds Q s1 ?s2" using assms(1) by (rule log_msg_adds)
    moreover have "adds Q ?s2 ?s3" using assms(1,5) by (intro post_adds)
    moreover have "adds Q ?s3 (trigger_vercel_deploy c w ?s3)" using assms(1,4,3) by (intro trigger_adds)
    ultimately have "adds Q s (trigger_vercel_deploy c w ?s3)" using a1 by (blast intro: adds_trans)
    with True r Exit0 show ?thesis by (simp add: commit_and_push_def)
  next
    case (NonZero e err)
    let ?s2 = "log_msg (py ''git push step '' @ str_nat idx @ py '' failed: '' @ e
                  @ py '' stderr='' @ strip err) s1"
    have "adds Q s1 ?s2" using assms(1) by (rule log_msg_adds)
    moreover have "\<And>b. adds Q ?s2 (post c w (py ''/v1.0/log/error'') b ?s2)"
      using assms(1,6) by (intro post_adds)
    ultimately have "\<And>b. adds Q s (post c w (py ''/v1.0/log/error'') b ?s2)"
      using a1 by (blast intro: adds_trans)
    with True r NonZero show ?thesis by (simp add: commit_and_push_def)
  next
    case Escaped
    with True r a1 show ?thesis by (simp add: commit_and_push_def)
  qed
qed

text \<open>
  Claim C4. Publish is a no-op without a remote: when no repository URL or no push
  credential is configured, or git initialisation failed, \<open>commit_and_push\<close> in a state
  whose push URL is the one the setup left returns that state as it is, for every step
  index and summary: no git command, no deployment request, no change.
\<close>

theorem publish_noop:
  assumes "\<not> truthy (repo_url c) \<or> \<not> truthy (github_token c) \<or> git_init_failed c w init_st"
    and "push_url s = push_url (state_of (git_setup c w init_st))"
  shows "commit_and_push c w idx summary s = Return s"
proof -
  have "\<not> truthy (push_url (state_of (git_setup c w init_st)))"
  proof (cases "truthy (repo_url c) \<and> truthy (github_token c)")
    case False
    then have "git_setup c w init_st = Return init_st"
      by (cases "repo_url c"; cases "github_token c") (auto simp: git_setup_def)
    then show ?thesis by (simp add: init_st_def)
  next
    case True
    then obtain url token where ut: "repo_url c = Some url" "github_token c = Some token"
      "url \<noteq> []" "token \<noteq> []"
      by (cases "repo_url c"; cases "github_token c") auto
    with True assms(1) have f: "git_init_failed c w init_st" by simp
    obtain r s1 where r: "run_git w (init_cmds c (auth_url url token))
        (init_st\<lparr>push_url := Some (auth_url url token)\<rparr>) = (r, s1)"
      by (cases "run_git w (init_cmds c (auth_url url token)) (init_st\<lparr>push_url := Some (auth_url url token)\<rparr>)")
    with f ut obtain e err where "r = NonZero e err"
      by (cases r) (simp_all add: git_init_failed_def)
    with ut r show ?thesis by (simp add: git_setup_def)
  qed
  with assms(2) show ?thesis by (simp add: commit_and_push_def)
qed

text \<open>C4 on a job without a remote, and on a job whose git initialisation fails.\<close>

theorem publish_noop_witness:
  "\<not> truthy (repo_url job0) \<and> git_init_failed job1 stormy init_st \<and>
   commit_and_push job0 calm 3 (py ''Build UI'') init_st = Return init_st \<and>
   commit_and_push job1 stormy 0 (py ''Scaffold'') (state_of (git_setup job1 stormy init_st)) =
     Return (state_of (git_setup job1 stormy init_st))"
proof -
  have a: "\<not> truthy (repo_url job0)" by (simp add: job0_def)
  have b: "git_init_failed job1 stormy init_st"
    by (simp add: git_init_failed_def job1_def job0_def stormy_def calm_def init_cmds_def Let_def py_def)
  have c: "push_url init_st = push_url (state_of (git_setup job0 calm init_st))"
    by (simp add: git_setup_def job0_def)
  from a have "commit_and_push job0 calm 3 (py ''Build UI'') init_st = Return init_st"
    using publish_noop [of job0 calm init_st 3 "py ''Build UI''"] c by simp
  moreover from b have "commit_and_push job1 stormy 0 (py ''Scaffold'') (state_of (git_setup job1 stormy init_st)) =
     Return (state_of (git_setup job1 stormy init_st))"
    using publish_noop [of job1 stormy "state_of (git_setup job1 stormy init_st)" 0 "py ''Scaffold''"] by simp
  ultimately show ?thesis using a b by simp
qed

text \<open>
  Claim C5. Commit message format: for a step that is published (the three git commands
  of \<open>commit_and_push\<close> succeed), the git commands run are exactly the staging, one
  commit whose message is \<^verbatim>\<open>Step <step_index>: \<close> and the first 72 characters of the
  summary, made with \<^verbatim>\<open>--allow-empty\<close>, and the forced push.
\<close>

theorem commit_message:
  assumes "truthy (push_url s)"
    and "fst (run_git w (publish_cmds c idx summary) s) = Exit0"
  shows "git_cmds (trace (state_of (commit_and_push c w idx summary s))) =
     git_cmds (trace s) @
       [[py ''git'', py ''add'', py ''-A''],
        [py ''git'', py ''commit'', py ''-m'',
         py ''Step '' @ str_nat idx @ py '': '' @ take 72 summary, py ''--allow-empty''],
        [py ''git'', py ''push'', py ''--force'', py ''-u'', py ''origin'', branch c]]"
proof -
  obtain r s1 where r: "run_git w (publish_cmds c idx summary) s = (r, s1)"
    by (cases "run_git w (publish_cmds c idx summary) s")
  with assms(2) have e: "r = Exit0" and s1: "s1 = snd (run_git w (publish_cmds c idx summary) s)"
    by simp_all
  from run_git_all [OF assms(2)] s1 have g: "git_cmds (trace s1) = git_cmds (trace s) @ publish_cmds c idx summary"
    by simp
  let ?s2 = "log_msg (py ''pushed step '' @ str_nat idx) s1"
  let ?s3 = "post c w (py ''/v1.0/log/push'') (push_body c idx summary) ?s2"
  have "adds (\<lambda>e. \<not> is_git e) s1 ?s2" by (rule log_msg_adds) simp
  moreover have "adds (\<lambda>e. \<not> is_git e) ?s2 ?s3" by (rule post_adds) simp_all
  moreover have "adds (\<lambda>e. \<not> is_git e) ?s3 (trigger_vercel_deploy c w ?s3)"
    by (rule trigger_adds) simp_all
  ultimately have "adds (\<lambda>e. \<not> is_git e) s1 (trigger_vercel_deploy c w ?s3)"
    by (blast intro: adds_trans)
  then have "git_cmds (trace (trigger_vercel_deploy c w ?s3)) = git_cmds (trace s1)"
    by (rule adds_git_cmds)
  with g assms(1) r e show ?thesis
    by (simp add: commit_and_push_def publish_cmds_def)
qed

text \<open>C5 on step 2 with the summary \<^verbatim>\<open>Add API\<close>.\<close>

theorem commit_message_witness:
  "git_cmds (trace (state_of (commit_and_push job1 calm 2 (py ''Add API'') (init_st\<lparr>push_url := Some (py ''u'')\<rparr>)))) =
     [[py ''git'', py ''add'', py ''-A''],
      [py ''git'', py ''commit'', py ''-m'', py ''Step 2: Add API'', py ''--allow-empty''],
      [py ''git'', py ''push'', py ''--force'', py ''-u'', py ''origin'', py ''main'']]"
proof -
  have "truthy (push_url (init_st\<lparr>push_url := Some (py ''u'')\<rparr>))" by (simp add: py_def)
  moreover have "fst (run_git calm (publish_cmds job1 2 (py ''Add API'')) (init_st\<lparr>push_url := Some (py ''u'')\<rparr>)) = Exit0"
    by (simp add: publish_cmds_def calm_def Let_def)
  ultimately show ?thesis
    using commit_message [of "init_st\<lparr>push_url := Some (py ''u'')\<rparr>" calm job1 2 "py ''Add API''"]
    by (simp add: init_st_def job1_def job0_def str_nat.simps py_def)
qed

section \<open>The job driver on one text block\<close>

lemma paths_distinct:
  "py ''/v1.0/log/step'' \<noteq> py ''/v1.0/log/start''"
  "py ''/v1.0/log/step'' \<noteq> py ''/v1.0/log/push''"
  "py ''/v1.0/log/step'' \<noteq> py ''/v1.0/log/error''"
  "py ''/v1.0/log/step'' \<noteq> py ''/v1.0/log/deployment''"
  "py ''/v1.0/log/step'' \<noteq> py ''/v1.0/log/done''"
  "py ''/v1.0/log/start'' \<noteq> py ''/v1.0/log/step''"
  "py ''/v1.0/log/start'' \<noteq> py ''/v1.0/log/push''"
  "py ''/v1.0/log/start'' \<noteq> py ''/v1.0/log/error''"
  "py ''/v1.0/log/start'' \<noteq> py ''/v1.0/log/deployment''"
  "py ''/v1.0/log/start'' \<noteq> py ''/v1.0/log/done''"
  "py ''/v1.0/log/done'' \<noteq> py ''/v1.0/log/step''"
  "py ''/v1.0/log/done'' \<noteq> py ''/v1.0/log/start''"
  "py ''/v1.0/log/done'' \<noteq> py ''/v1.0/log/push''"
  "py ''/v1.0/log/done'' \<noteq> py ''/v1.0/log/error''"
  "py ''/v1.0/log/done'' \<noteq> py ''/v1.0/log/deployment''"
  "py ''/v1.0/log/push'' \<noteq> py ''/v1.0/log/step''"
  "py ''/v1.0/log/error'' \<noteq> py ''/v1.0/log/step''"
  "py ''/v1.0/log/deployment'' \<noteq> py ''/v1.0/log/step''"
  "py ''/v1.0/log/push'' \<noteq> py ''/v1.0/log/start''"
  "py ''/v1.0/log/error'' \<noteq> py ''/v1.0/log/start''"
  "py ''/v1.0/log/deployment'' \<noteq> py ''/v1.0/log/start''"
  "py ''/v1.0/log/push'' \<noteq> py ''/v1.0/log/done''"
  "py ''/v1.0/log/error'' \<noteq> py ''/v1.0/log/done''"
  "py ''/v1.0/log/deployment'' \<noteq> py ''/v1.0/log/done''"
  by (simp_all add: py_def)

lemma commit_and_push_posted:
  assumes "path \<noteq> py ''/v1.0/log/push''" "path \<noteq> py ''/v1.0/log/error''" "path \<noteq> py ''/v1.0/log/deployment''"
  shows "posted path (trace (state_of (commit_and_push c w idx summary s))) = posted path (trace s)"
proof -
  have "adds (\<lambda>e. \<not> is_post_to path e) s (state_of (commit_and_push c w idx summary s))"
    using assms by (intro commit_and_push_adds) auto
  then show ?thesis by (rule adds_posted)
qed

lemma send_step_fields [simp]:
  "push_url (state_of (send_step c w summary done s)) = push_url s"
  "plan_steps (state_of (send_step c w summary done s)) = plan_steps s"
  "total_steps (state_of (send_step c w summary done s)) = total_steps s"
  "step_index (state_of (send_step c w summary done s)) = step_index s"
  "started_sent (state_of (send_step c w summary done s)) = started_sent s"
  by (simp_all add: send_step_def Let_def)

lemma send_step_posted_step:
  assumes "callback_base c \<noteq> []"
  shows "posted (py ''/v1.0/log/step'') (trace (state_of (send_step c w summary done s))) =
     posted (py ''/v1.0/log/step'') (trace s) @ [step_body c (step_index s) (total_steps s) done summary]"
  unfolding send_step_def Let_def
  by (simp add: commit_and_push_posted paths_distinct post_posted [OF assms])

lemma send_step_posted_other:
  assumes "path \<noteq> py ''/v1.0/log/step''" "path \<noteq> py ''/v1.0/log/push''"
    "path \<noteq> py ''/v1.0/log/error''" "path \<noteq> py ''/v1.0/log/deployment''"
  shows "posted path (trace (state_of (send_step c w summary done s))) = posted path (trace s)"
proof -
  have "adds (\<lambda>e. \<not> is_post_to path e) s
      (post c w (py ''/v1.0/log/step'') (step_body c (step_index s) (total_steps s) done summary) s)"
    using assms(1) by (intro post_adds) auto
  then have "posted path (trace (post c w (py ''/v1.0/log/step'')
      (step_body c (step_index s) (total_steps s) done summary) s)) = posted path (trace s)"
    by (rule adds_posted)
  then show ?thesis
    unfolding send_step_def Let_def using assms(2-4)
    by (simp add: commit_and_push_posted)
qed

lemma handle_text_blank: "strip raw = [] \<Longrightarrow> handle_text c w raw s = Return s"
  by (simp add: handle_text_def)

lemma handle_text_first:
  assumes "strip raw \<noteq> []" "\<not> started_sent s"
  shows "handle_text c w raw s =
    Return (post c w (py ''/v1.0/log/start'')
      (start_body c (snd (parse_plan (plan_steps s) (strip raw))) (fst (parse_plan (plan_steps s) (strip raw))))
      (s\<lparr>started_sent := True, plan_steps := fst (parse_plan (plan_steps s) (strip raw)),
         total_steps := snd (parse_plan (plan_steps s) (strip raw))\<rparr>))"
  using assms by (simp add: handle_text_def Let_def split: prod.splits)

lemma handle_text_later:
  assumes "strip raw \<noteq> []" "started_sent s"
  shows "handle_text c w raw s =
    (case send_step c w (classify (strip raw) (step_index s) (plan_steps s)) False s of
       Return s1 \<Rightarrow> Return (s1\<lparr>step_index := step_index s1 + 1\<rparr>)
     | Raise s1 \<Rightarrow> Raise s1)"
  using assms by (simp add: handle_text_def Let_def)

lemma parse_plan_nonempty: "plan_lines t \<noteq> [] \<Longrightarrow> fst (parse_plan ps t) \<noteq> []"
  by (cases "plan_lines t") (auto simp: parse_plan_def Let_def)

text \<open>
  Claim C10. Empty agent text blocks are invisible: a text block that is empty or only
  white space leaves the state as it is (it is not the plan message, adds no event and
  no publish, does not move the cursor) and the rest of the blocks run as if it were
  not there; so the text parsed as the plan has at least one non-empty trimmed line,
  and the plan it gives is not empty.
\<close>

theorem blank_block_skipped:
  "(strip raw = [] \<longrightarrow>
      handle_text c w raw s = Return s \<and>
      run_blocks c w (TextBlock raw # bs) s = run_blocks c w bs s) \<and>
   (strip raw \<noteq> [] \<longrightarrow>
      plan_lines (strip raw) \<noteq> [] \<and>
      (\<not> started_sent s \<longrightarrow> plan_steps (state_of (handle_text c w raw s)) \<noteq> []))"
proof (rule conjI; rule impI)
  assume "strip raw = []"
  then show "handle_text c w raw s = Return s \<and>
      run_blocks c w (TextBlock raw # bs) s = run_blocks c w bs s"
    by (simp add: handle_text_blank)
next
  assume a: "strip raw \<noteq> []"
  then have l: "plan_lines (strip raw) \<noteq> []" by (rule plan_lines_nonempty)
  then have "fst (parse_plan (plan_steps s) (strip raw)) \<noteq> []" by (rule parse_plan_nonempty)
  with a l show "plan_lines (strip raw) \<noteq> [] \<and>
      (\<not> started_sent s \<longrightarrow> plan_steps (state_of (handle_text c w raw s)) \<noteq> [])"
    by (simp add: handle_text_first)
qed

text \<open>C10 on a block of white space and on a block with one word.\<close>

theorem blank_block_skipped_witness:
  "handle_text job0 calm [32, 10, 9] init_st = Return init_st \<and>
   plan_lines (strip (py '' go '')) \<noteq> [] \<and>
   plan_steps (state_of (handle_text job0 calm (py '' go '') init_st)) \<noteq> []"
proof -
  have "strip [32, 10, 9] = []" by (simp add: eval_str)
  moreover have "strip (py '' go '') \<noteq> []" by (simp add: eval_str)
  moreover have "\<not> started_sent init_st" by (simp add: init_st_def)
  ultimately show ?thesis
    using blank_block_skipped [of "[32, 10, 9]" job0 calm init_st "[]"]
      blank_block_skipped [of "py '' go ''" job0 calm init_st "[]"]
    by simp
qed

section \<open>What the job driver adds to the trace\<close>






lemma git_setup_adds:
  assumes "\<And>m. Q (Log m)" "\<And>cmd. Q (Git cmd)" "\<And>b. Q (Post (py ''/v1.0/log/error'') b)"
  shows "adds Q s (state_of (git_setup c w s))"
proof (cases "truthy (repo_url c) \<and> truthy (github_token c)")
  case False
  then have "git_setup c w s = Return s"
    by (cases "repo_url c"; cases "github_token c") (auto simp: git_setup_def)
  then show ?thesis by (simp add: adds_refl)
next
  case True
  then obtain url token where ut: "repo_url c = Some url" "github_token c = Some token"
    "url \<noteq> []" "token \<noteq> []"
    by (cases "repo_url c"; cases "github_token c") auto
  let ?s0 = "s\<lparr>push_url := Some (auth_url url token)\<rparr>"
  obtain r s1 where r: "run_git w (init_cmds c (auth_url url token)) ?s0 = (r, s1)"
    by (cases "run_git w (init_cmds c (auth_url url token)) ?s0")
  then have "s1 = snd (run_git w (init_cmds c (auth_url url token)) ?s0)" by simp
  with run_git_adds [of Q ?s0 w "init_cmds c (auth_url url token)"] assms(2)
  have "adds Q ?s0 s1" by simp
  then have a1: "adds Q s s1" by (simp add: adds_def)
  show ?thesis
  proof (cases r)
    case Exit0
    with ut r a1 show ?thesis by (simp add: git_setup_def)
  next
    case (NonZero e err)
    let ?s2 = "log_msg (py ''git init failed: '' @ e @ py '' stderr='' @ strip err) (s1\<lparr>push_url := None\<rparr>)"
    have "adds Q s (s1\<lparr>push_url := None\<rparr>)" using a1 by (simp add: adds_def)
    moreover have "adds Q (s1\<lparr>push_url := None\<rparr>) ?s2" using assms(1) by (rule log_msg_adds)
    moreover have "\<And>b. adds Q ?s2 (post c w (py ''/v1.0/log/error'') b ?s2)"
      using assms(1,3) by (intro post_adds)
    ultimately have "\<And>b. adds Q s (post c w (py ''/v1.0/log/error'') b ?s2)"
      by (blast intro: adds_trans)
    with ut r NonZero show ?thesis by (simp add: git_setup_def)
  next
    case Escaped
    with ut r a1 show ?thesis by (simp add: git_setup_def)
  qed
qed

lemma git_setup_fields [simp]:
  "plan_steps (state_of (git_setup c w s)) = plan_steps s"
  "total_steps (state_of (git_setup c w s)) = total_steps s"
  "step_index (state_of (git_setup c w s)) = step_index s"
  "started_sent (state_of (git_setup c w s)) = started_sent s"
proof -
  have "plan_steps (state_of (git_setup c w s)) = plan_steps s \<and>
    total_steps (state_of (git_setup c w s)) = total_steps s \<and>
    step_index (state_of (git_setup c w s)) = step_index s \<and>
    started_sent (state_of (git_setup c w s)) = started_sent s"
  proof (cases "truthy (repo_url c) \<and> truthy (github_token c)")
    case False
    then have "git_setup c w s = Return s"
      by (cases "repo_url c"; cases "github_token c") (auto simp: git_setup_def)
    then show ?thesis by simp
  next
    case True
    then obtain url token where ut: "repo_url c = Some url" "github_token c = Some token"
      "url \<noteq> []" "token \<noteq> []"
      by (cases "repo_url c"; cases "github_token c") auto
    let ?s0 = "s\<lparr>push_url := Some (auth_url url token)\<rparr>"
    obtain r s1 where r: "run_git w (init_cmds c (auth_url url token)) ?s0 = (r, s1)"
      by (cases "run_git w (init_cmds c (auth_url url token)) ?s0")
    then have s1: "s1 = snd (run_git w (init_cmds c (auth_url url token)) ?s0)" by simp
    have "plan_steps s1 = plan_steps s" "total_steps s1 = total_steps s"
      "step_index s1 = step_index s" "started_sent s1 = started_sent s"
      unfolding s1 by simp_all
    with ut r show ?thesis by (cases r) (simp_all add: git_setup_def)
  qed
  then show "plan_steps (state_of (git_setup c w s)) = plan_steps s"
    "total_steps (state_of (git_setup c w s)) = total_steps s"
    "step_index (state_of (git_setup c w s)) = step_index s"
    "started_sent (state_of (git_setup c w s)) = started_sent s"
    by simp_all
qed

lemma make_pitch_adds:
  assumes "\<And>m. Q (Log m)" "\<And>i p. Q (Pitch i p)"
  shows "adds Q s (snd (make_pitch c w s))"
  using assms unfolding make_pitch_def Let_def
  by (auto simp: adds_def log_msg_def split: pitch_reply.splits)

section \<open>The cursor\<close>

lemma step_body_fields [simp]:
  "field (py ''stepIndex'') (step_body c i n d summary) = Some (JInt (int i))"
  "field (py ''totalSteps'') (step_body c i n d summary) = Some (JInt (int n))"
  "field (py ''done'') (step_body c i n d summary) = Some (JBool d)"
  "field (py ''summary'') (step_body c i n d summary) = Some (JStr summary)"
  by (simp_all add: step_body_def py_def)

lemma steps_in_append:
  "steps_in b (t1 @ t2) = steps_in b t1 + steps_in (b \<or> t1 \<noteq> []) t2"
  by (cases t1) (auto simp: steps_in_def)

lemma driver_effect_not_post:
  assumes "path \<noteq> py ''/v1.0/log/deployment''" "path \<noteq> py ''/v1.0/log/push''"
    "path \<noteq> py ''/v1.0/log/error''" "path \<noteq> py ''/v1.0/log/step''" "path \<noteq> py ''/v1.0/log/start''"
  shows "driver_effect (\<lambda>e. \<not> is_post_to path e)"
  using assms by (auto simp: driver_effect_def)

lemma handle_text_cursor:
  assumes base: "callback_base c \<noteq> []" and r: "handle_text c w raw s = Return s'" and ok: "cursor_ok s"
  shows "cursor_ok s' \<and> step_index s' = step_index s + steps_in (started_sent s) (texts_of [TextBlock raw])
     \<and> started_sent s' = (started_sent s \<or> texts_of [TextBlock raw] \<noteq> [])"
proof (cases "strip raw = []")
  case True
  with r ok show ?thesis by (simp add: handle_text_blank steps_in_def)
next
  case ne: False
  show ?thesis
  proof (cases "started_sent s")
    case False
    let ?s0 = "s\<lparr>started_sent := True, plan_steps := fst (parse_plan (plan_steps s) (strip raw)),
         total_steps := snd (parse_plan (plan_steps s) (strip raw))\<rparr>"
    from r ne False have s': "s' = post c w (py ''/v1.0/log/start'')
        (start_body c (snd (parse_plan (plan_steps s) (strip raw))) (fst (parse_plan (plan_steps s) (strip raw)))) ?s0"
      by (simp add: handle_text_first)
    have "adds (\<lambda>e. \<not> is_post_to (py ''/v1.0/log/step'') e) ?s0 s'"
      unfolding s' by (rule post_adds) (simp_all add: paths_distinct)
    then have "posted (py ''/v1.0/log/step'') (trace s') = posted (py ''/v1.0/log/step'') (trace s)"
      by (simp add: adds_posted)
    with ok ne False show ?thesis by (simp add: s' cursor_ok_def step_marks_def steps_in_def)
  next
    case True
    let ?sum = "classify (strip raw) (step_index s) (plan_steps s)"
    from r ne True obtain s1 where s1: "send_step c w ?sum False s = Return s1"
        and s': "s' = s1\<lparr>step_index := step_index s1 + 1\<rparr>"
      by (cases "send_step c w ?sum False s") (simp_all add: handle_text_later)
    from send_step_posted_step [OF base, of w ?sum False s] s1
    have p: "posted (py ''/v1.0/log/step'') (trace s1) =
      posted (py ''/v1.0/log/step'') (trace s) @ [step_body c (step_index s) (total_steps s) False ?sum]"
      by simp
    from send_step_fields(4) [of c w ?sum False s] s1 have i: "step_index s1 = step_index s" by simp
    from send_step_fields(5) [of c w ?sum False s] s1 have st: "started_sent s1 = started_sent s" by simp
    from ok p i have "cursor_ok s'"
      by (simp add: s' cursor_ok_def step_marks_def ordinary_def)
    with i st ne True show ?thesis by (simp add: s' steps_in_def)
  qed
qed

lemma run_blocks_cursor:
  assumes base: "callback_base c \<noteq> []"
  shows "run_blocks c w bs s = Return s' \<Longrightarrow> cursor_ok s \<Longrightarrow>
     cursor_ok s' \<and> step_index s' = step_index s + steps_in (started_sent s) (texts_of bs)
     \<and> started_sent s' = (started_sent s \<or> texts_of bs \<noteq> [])"
proof (induction bs arbitrary: s)
  case Nil
  then show ?case by (simp add: steps_in_def)
next
  case (Cons b bs)
  show ?case
  proof (cases b)
    case OtherBlock
    with Cons show ?thesis by simp
  next
    case (TextBlock raw)
    with Cons.prems(1) obtain s1 where h: "handle_text c w raw s = Return s1"
        and rest: "run_blocks c w bs s1 = Return s'"
      by (cases "handle_text c w raw s") simp_all
    from handle_text_cursor [OF base h Cons.prems(2)]
    have 1: "cursor_ok s1" "step_index s1 = step_index s + steps_in (started_sent s) (texts_of [TextBlock raw])"
      "started_sent s1 = (started_sent s \<or> texts_of [TextBlock raw] \<noteq> [])" by simp_all
    from Cons.IH [OF rest 1(1)]
    have 2: "cursor_ok s'" "step_index s' = step_index s1 + steps_in (started_sent s1) (texts_of bs)"
      "started_sent s' = (started_sent s1 \<or> texts_of bs \<noteq> [])" by simp_all
    have t: "texts_of (b # bs) = texts_of [TextBlock raw] @ texts_of bs" using TextBlock by simp
    show ?thesis unfolding t steps_in_append using 1 2 by auto
  qed
qed

lemma run_agent_cursor:
  assumes base: "callback_base c \<noteq> []"
  shows "run_agent c w msgs s = Return s' \<Longrightarrow> ResultMessage \<notin> set msgs \<Longrightarrow> cursor_ok s \<Longrightarrow>
     cursor_ok s' \<and> step_index s' = step_index s + steps_in (started_sent s) (stream_texts msgs)"
proof (induction msgs arbitrary: s)
  case Nil
  then show ?case by (simp add: steps_in_def)
next
  case (Cons m ms)
  show ?case
  proof (cases m)
    case ResultMessage
    with Cons.prems show ?thesis by simp
  next
    case OtherMessage
    with Cons show ?thesis by simp
  next
    case (AssistantMessage bs)
    with Cons.prems(1) obtain s1 where h: "run_blocks c w bs s = Return s1"
        and rest: "run_agent c w ms s1 = Return s'"
      by (cases "run_blocks c w bs s") simp_all
    from run_blocks_cursor [OF base h Cons.prems(3)]
    have 1: "cursor_ok s1" "step_index s1 = step_index s + steps_in (started_sent s) (texts_of bs)"
      "started_sent s1 = (started_sent s \<or> texts_of bs \<noteq> [])" by simp_all
    from Cons.prems(2) have "ResultMessage \<notin> set ms" by simp
    from Cons.IH [OF rest this 1(1)]
    have 2: "cursor_ok s'" "step_index s' = step_index s1 + steps_in (started_sent s1) (stream_texts ms)"
      by simp_all
    have t: "stream_texts (m # ms) = texts_of bs @ stream_texts ms" using AssistantMessage by simp
    show ?thesis unfolding t steps_in_append using 1 2 by auto
  qed
qed

lemma run_agent_append:
  "run_agent c w (ms @ ms') s =
     (case run_agent c w ms s of Return s1 \<Rightarrow> run_agent c w ms' s1 | Raise s1 \<Rightarrow> Raise s1)"
proof (induction ms arbitrary: s)
  case Nil
  show ?case by simp
next
  case (Cons m ms)
  show ?case
  proof (cases m)
    case (AssistantMessage bs)
    with Cons.IH show ?thesis by (cases "run_blocks c w bs s") simp_all
  next
    case ResultMessage
    with Cons.IH show ?thesis by (cases "send_step c w (py ''Build complete'') True s") simp_all
  next
    case OtherMessage
    with Cons.IH show ?thesis by simp
  qed
qed

text \<open>
  Claim C3. Cursor monotonicity: in a run that ends with the agent's result message,
  the step events carry the indices 0, 1, 2, ... in order, one per text block that is
  processed (not blank, not the first), without gap or repeat and with
  \<^verbatim>\<open>done\<close> false; then the one completion event, with \<^verbatim>\<open>done\<close> true and the summary
  \<^verbatim>\<open>Build complete\<close>, carries the next index, one past the last ordinary step.
\<close>

theorem cursor_monotone:
  assumes base: "callback_base c \<noteq> []"
    and nores: "ResultMessage \<notin> set msgs"
    and ret: "main c w (msgs @ [ResultMessage]) = Return s"
  shows "map (\<lambda>b. (field (py ''stepIndex'') b, field (py ''done'') b)) (posted (py ''/v1.0/log/step'') (trace s)) =
       map (\<lambda>i. (Some (JInt (int i)), Some (JBool False))) [0 ..< length (stream_texts msgs) - 1]
         @ [(Some (JInt (int (length (stream_texts msgs) - 1))), Some (JBool True))]
     \<and> field (py ''summary'') (last (posted (py ''/v1.0/log/step'') (trace s))) = Some (JStr (py ''Build complete''))"
proof -
  let ?step = "py ''/v1.0/log/step''"
  let ?k = "length (stream_texts msgs) - 1"
  from ret obtain s1 where g: "git_setup c w init_st = Return s1"
    by (cases "git_setup c w init_st") (simp_all add: main_def)
  let ?s2 = "log_msg (py ''started job_id='' @ job_id c @ py '' branch='' @ branch c) s1"
  from ret g obtain s3 where ra: "run_agent c w (msgs @ [ResultMessage]) ?s2 = Return s3"
    by (cases "run_agent c w (msgs @ [ResultMessage]) ?s2") (simp_all add: main_def)
  let ?s4 = "log_msg (py ''agent run finished'') s3"
  obtain pitch s5 where mp: "make_pitch c w ?s4 = (pitch, s5)" by (cases "make_pitch c w ?s4")
  from ret g ra mp have s: "s = log_msg (py ''finished'') (post c w (py ''/v1.0/log/done'') (done_body c pitch) s5)"
    by (simp add: main_def)
  \<comment> \<open>before the stream\<close>
  have "adds (\<lambda>e. \<not> is_post_to ?step e) init_st (state_of (git_setup c w init_st))"
    by (rule git_setup_adds) (simp_all add: paths_distinct)
  with g have "adds (\<lambda>e. \<not> is_post_to ?step e) init_st s1" by simp
  moreover have "adds (\<lambda>e. \<not> is_post_to ?step e) s1 ?s2" by (rule log_msg_adds) simp
  ultimately have "adds (\<lambda>e. \<not> is_post_to ?step e) init_st ?s2" by (rule adds_trans)
  then have "posted ?step (trace ?s2) = []" by (simp add: adds_posted init_st_def)
  moreover have "step_index (state_of (git_setup c w init_st)) = step_index init_st" by simp
  then have i2: "step_index ?s2 = 0" unfolding g by (simp add: init_st_def)
  ultimately have ok2: "cursor_ok ?s2" by (simp add: cursor_ok_def step_marks_def)
  have "started_sent (state_of (git_setup c w init_st)) = started_sent init_st" by simp
  then have ns: "\<not> started_sent ?s2" unfolding g by (simp add: init_st_def)
  \<comment> \<open>the stream\<close>
  from ra obtain sa where a: "run_agent c w msgs ?s2 = Return sa"
      and b: "send_step c w (py ''Build complete'') True sa = Return s3"
    by (cases "run_agent c w msgs ?s2"; cases "send_step c w (py ''Build complete'') True (state_of (run_agent c w msgs ?s2))")
       (simp_all add: run_agent_append)
  from run_agent_cursor [OF base a nores ok2] ns i2
  have oka: "cursor_ok sa" and ia: "step_index sa = ?k" by (simp_all add: steps_in_def)
  from send_step_posted_step [OF base, of w "py ''Build complete''" True sa] b
  have p3: "posted ?step (trace s3) = posted ?step (trace sa) @
      [step_body c (step_index sa) (total_steps sa) True (py ''Build complete'')]" by simp
  \<comment> \<open>after the stream\<close>
  have "adds (\<lambda>e. \<not> is_post_to ?step e) s3 ?s4" by (rule log_msg_adds) simp
  moreover have "adds (\<lambda>e. \<not> is_post_to ?step e) ?s4 (snd (make_pitch c w ?s4))"
    by (rule make_pitch_adds) simp_all
  moreover have "adds (\<lambda>e. \<not> is_post_to ?step e) s5 (post c w (py ''/v1.0/log/done'') (done_body c pitch) s5)"
    by (rule post_adds) (simp_all add: paths_distinct)
  moreover have "adds (\<lambda>e. \<not> is_post_to ?step e) (post c w (py ''/v1.0/log/done'') (done_body c pitch) s5) s"
    unfolding s by (rule log_msg_adds) simp
  ultimately have "adds (\<lambda>e. \<not> is_post_to ?step e) s3 s" using mp by (auto intro: adds_trans)
  then have "posted ?step (trace s) = posted ?step (trace s3)" by (rule adds_posted)
  with p3 oka ia show ?thesis
    by (simp add: cursor_ok_def step_marks_def ordinary_def)
qed

section \<open>Runs without a remote\<close>

lemma handle_text_push_url [simp]: "push_url (state_of (handle_text c w raw s)) = push_url s"
proof (cases "strip raw = []")
  case True
  then show ?thesis by (simp add: handle_text_blank)
next
  case ne: False
  show ?thesis
  proof (cases "started_sent s")
    case False
    with ne show ?thesis by (simp add: handle_text_first)
  next
    case True
    let ?r = "send_step c w (classify (strip raw) (step_index s) (plan_steps s)) False s"
    have "push_url (state_of ?r) = push_url s" by simp
    with ne True show ?thesis by (cases ?r) (simp_all add: handle_text_later)
  qed
qed

lemma send_step_no_push:
  "\<not> truthy (push_url s) \<Longrightarrow> send_step c w summary done s =
     Return (post c w (py ''/v1.0/log/step'') (step_body c (step_index s) (total_steps s) done summary) s)"
  by (simp add: send_step_def commit_and_push_def Let_def)

lemma handle_text_returns:
  "\<not> truthy (push_url s) \<Longrightarrow> \<exists>s'. handle_text c w raw s = Return s'"
  by (cases "strip raw = []"; cases "started_sent s")
     (simp_all add: handle_text_blank handle_text_first handle_text_later send_step_no_push)

lemma run_blocks_returns:
  "\<not> truthy (push_url s) \<Longrightarrow> \<exists>s'. run_blocks c w bs s = Return s' \<and> push_url s' = push_url s"
proof (induction bs arbitrary: s)
  case Nil
  show ?case by simp
next
  case (Cons b bs)
  show ?case
  proof (cases b)
    case OtherBlock
    with Cons show ?thesis by simp
  next
    case (TextBlock raw)
    from handle_text_returns [OF Cons.prems] obtain s1 where h: "handle_text c w raw s = Return s1" by blast
    have "push_url (state_of (handle_text c w raw s)) = push_url s" by simp
    then have p: "push_url s1 = push_url s" unfolding h by simp
    with Cons.prems have "\<not> truthy (push_url s1)" by simp
    from Cons.IH [OF this] h p TextBlock show ?thesis by auto
  qed
qed

lemma run_agent_returns:
  "\<not> truthy (push_url s) \<Longrightarrow> \<exists>s'. run_agent c w msgs s = Return s' \<and> push_url s' = push_url s"
proof (induction msgs arbitrary: s)
  case Nil
  show ?case by simp
next
  case (Cons m ms)
  show ?case
  proof (cases m)
    case OtherMessage
    with Cons show ?thesis by simp
  next
    case (AssistantMessage bs)
    from run_blocks_returns [OF Cons.prems] obtain s1 where
      h: "run_blocks c w bs s = Return s1" "push_url s1 = push_url s" by blast
    with Cons.prems have "\<not> truthy (push_url s1)" by simp
    from Cons.IH [OF this] h AssistantMessage show ?thesis by auto
  next
    case ResultMessage
    let ?s1 = "post c w (py ''/v1.0/log/step'')
       (step_body c (step_index s) (total_steps s) True (py ''Build complete'')) s"
    from Cons.prems have h: "send_step c w (py ''Build complete'') True s = Return ?s1"
      by (rule send_step_no_push)
    from Cons.prems have "\<not> truthy (push_url ?s1)" by simp
    from Cons.IH [OF this] h ResultMessage show ?thesis by auto
  qed
qed

lemma main_returns_without_remote:
  assumes "\<not> truthy (repo_url c) \<or> \<not> truthy (github_token c)"
  shows "\<exists>s. main c w msgs = Return s"
proof -
  from assms have g: "git_setup c w init_st = Return init_st"
    by (cases "repo_url c"; cases "github_token c") (auto simp: git_setup_def)
  let ?s2 = "log_msg (py ''started job_id='' @ job_id c @ py '' branch='' @ branch c) init_st"
  have "\<not> truthy (push_url ?s2)" by (simp add: init_st_def)
  from run_agent_returns [OF this] obtain s3 where "run_agent c w msgs ?s2 = Return s3" by blast
  with g show ?thesis by (simp add: main_def split: prod.splits)
qed

text \<open>C3 on the plan of three steps, three step messages and the result.\<close>

theorem cursor_monotone_witness:
  "callback_base job0 \<noteq> [] \<and> ResultMessage \<notin> set three_steps \<and>
   map (\<lambda>b. (field (py ''stepIndex'') b, field (py ''done'') b))
     (posted (py ''/v1.0/log/step'') (trace (state_of (main job0 calm (three_steps @ [ResultMessage]))))) =
     [(Some (JInt 0), Some (JBool False)), (Some (JInt 1), Some (JBool False)),
      (Some (JInt 2), Some (JBool False)), (Some (JInt 3), Some (JBool True))]"
proof -
  have b: "callback_base job0 \<noteq> []"
    by (simp add: callback_base_def job0_def rstrip_chr_def startswith_def py_def)
  have n: "ResultMessage \<notin> set three_steps" by (simp add: three_steps_def)
  have "\<not> truthy (repo_url job0) \<or> \<not> truthy (github_token job0)" by (simp add: job0_def)
  from main_returns_without_remote [OF this] obtain s where
    r: "main job0 calm (three_steps @ [ResultMessage]) = Return s" by blast
  have k: "length (stream_texts three_steps) = 4" by (simp add: three_steps_def eval_str)
  have u: "[0 ..< (3::nat)] = [0, 1, 2]" by (simp add: upt_rec)
  from cursor_monotone [OF b n r] b n show ?thesis unfolding r k by (simp add: u)
qed

section \<open>The total number of steps\<close>










lemma start_body_total [simp]: "field (py ''totalSteps'') (start_body c n steps) = Some (JInt (int n))"
  by (simp add: start_body_def py_def)








section \<open>The terminal event\<close>

lemma done_body_fields [simp]:
  "field (py ''success'') (done_body c pitch) = Some (JBool (truthy (repo_url c) \<or> \<not> truthy (github_token c)))"
  "field (py ''error'') (done_body c pitch) = Some JNull"
  by (simp_all add: done_body_def py_def)





end
